theory Spec2Isabelle
  imports Main
begin

section \<open>Data model\<close>

text \<open>
  The class \<^verbatim>\<open>BinaryMatrix\<close> of \<^verbatim>\<open>src/BinaryMatrix.ts\<close> holds a \<^verbatim>\<open>size\<close>
  (an array of numbers) and a \<^verbatim>\<open>buffer\<close> (an \<^verbatim>\<open>ArrayBuffer\<close>). Numbers are modelled as
  integers: sizes, indices and offsets are \<^typ>\<open>int\<close>, the integers of the wire format are
  \<^typ>\<open>nat\<close>; the one number of the class that double precision does not hold exactly is
  modelled with its rounding (\<open>pow2_minus_1\<close> below). An \<^verbatim>\<open>ArrayBuffer\<close> is modelled as the list of its bits in
  storage order, the order in which the bit primitives address them. The private field
  \<^verbatim>\<open>_bitLength\<close> only caches \<^verbatim>\<open>sizeToBitLength(this.size)\<close> and is not a field of the
  record. What the source raises, and where it computes on with \<^verbatim>\<open>undefined\<close>, is a value
  of \<open>error\<close>.
\<close>

datatype error =
    DimensionMismatch   \<comment> \<open>the indices do not have one entry per dimension\<close>
  | RangeError          \<comment> \<open>a bit offset outside the buffer, or an invalid array length\<close>
  | TypeError           \<comment> \<open>a property read on \<^verbatim>\<open>undefined\<close>\<close>
  | UndefinedOperand    \<comment> \<open>the source computes on with \<^verbatim>\<open>undefined\<close> or \<^verbatim>\<open>NaN\<close>; not modelled further\<close>

record BinaryMatrix =
  size_m :: "int list"
  buffer :: "bool list"

text \<open>
  The type \<^verbatim>\<open>Expansion\<close> of the missing file \<^verbatim>\<open>type.ts\<close>, with the two fields
  \<^verbatim>\<open>setExternalBit\<close> takes from it: \<^verbatim>\<open>size\<close> and \<^verbatim>\<open>pos\<close>.
\<close>

record Expansion =
  size_e :: "int list"
  pos :: "int list"

section \<open>The bit-buffer primitives\<close>

text \<open>
  The package \<^verbatim>\<open>@hookun/bitbybit\<close> is an external collaborator whose code is not part of
  the repository; each of its functions that the class calls is modelled from what the
  spec says it offers.
\<close>

text \<open>
  Modelled from the spec: \<^verbatim>\<open>createBufferFromBitLength\<close>, "allocate by bit count". The
  buffer is zero-filled and made of the whole bytes that hold \<open>n\<close> bits.
\<close>

definition createBufferFromBitLength :: "int \<Rightarrow> bool list" where
  "createBufferFromBitLength n = replicate (8 * nat ((n + 7) div 8)) False"

text \<open>
  Modelled from the spec: \<^verbatim>\<open>getBit\<close> and \<^verbatim>\<open>setBit\<close>, "get/set a bit by offset". An
  offset outside the buffer is a \<^const>\<open>RangeError\<close>.
\<close>

definition getBit :: "bool list \<Rightarrow> int \<Rightarrow> error + bool" where
  "getBit buf off =
     (if 0 \<le> off \<and> off < int (length buf) then Inr (buf ! nat off) else Inl RangeError)"

definition setBit :: "bool list \<Rightarrow> int \<Rightarrow> bool \<Rightarrow> error + bool list" where
  "setBit buf off v =
     (if 0 \<le> off \<and> off < int (length buf) then Inr (buf[nat off := v]) else Inl RangeError)"

text \<open>
  Modelled from the spec: \<^verbatim>\<open>listBit\<close>, "iterate all bits in storage order", and
  \<^verbatim>\<open>listBitHasState\<close>, "iterate offsets matching a given state within a range".
\<close>

definition listBit :: "bool list \<Rightarrow> bool list" where
  "listBit buf = buf"

definition listBitHasState :: "bool list \<Rightarrow> bool \<Rightarrow> int \<Rightarrow> int \<Rightarrow> int list" where
  "listBitHasState buf state start stop =
     filter (\<lambda>off. getBit buf off = Inr state) [start..stop - 1]"

text \<open>
  Modelled from the spec: \<^verbatim>\<open>runLength\<close>, "extract alternating run lengths over a range",
  starting with a run of 0 bits whose length may be zero.
\<close>

fun runs :: "bool \<Rightarrow> nat \<Rightarrow> bool list \<Rightarrow> nat list" where
  "runs state n [] = [n]"
| "runs state n (b # bs) = (if b = state then runs state (Suc n) bs else n # runs b 1 bs)"

definition runLength :: "bool list \<Rightarrow> int \<Rightarrow> int \<Rightarrow> nat list" where
  "runLength buf start stop = runs False 0 (take (nat (stop - start)) (drop (nat start) buf))"

text \<open>
  Modelled from the spec: \<^verbatim>\<open>BitWriter\<close>, "a sequential writer". \<^verbatim>\<open>write(v, n)\<close>
  appends the \<open>n\<close> low bits of \<open>v\<close>, the highest first, and drops what falls beyond the end
  of its buffer; \<^verbatim>\<open>end()\<close> returns the buffer.
\<close>

record BitWriter =
  wbuffer :: "bool list"
  cursor :: nat

definition new_BitWriter :: "bool list \<Rightarrow> BitWriter" where
  "new_BitWriter buf = \<lparr>wbuffer = buf, cursor = 0\<rparr>"

definition writer_write :: "BitWriter \<Rightarrow> int \<Rightarrow> nat \<Rightarrow> BitWriter" where
  "writer_write w v n =
     \<lparr>wbuffer = fold (\<lambda>k b. b[cursor w + k := bit v (n - 1 - k)]) [0..<n] (wbuffer w),
      cursor = cursor w + n\<rparr>"

definition writer_end :: "BitWriter \<Rightarrow> bool list" where
  "writer_end w = wbuffer w"

section \<open>The addressing engine and the expansion planner\<close>

text \<open>
  \<^verbatim>\<open>sizeToBitLength\<close>, \<^verbatim>\<open>indicesToOffset\<close>, \<^verbatim>\<open>offsetToIndices\<close>, \<^verbatim>\<open>checkExpansion\<close>
  and \<^verbatim>\<open>isSame\<close> are modules of the repository that \<^verbatim>\<open>BinaryMatrix.ts\<close> imports and
  whose files are missing.
\<close>

text \<open>
  Modelled from the spec: \<^verbatim>\<open>sizeToBitLength\<close> is missing; "totalBits(Size) = \<open>\<Prod>\<close> Size[d]".
\<close>

definition sizeToBitLength :: "int list \<Rightarrow> int" where
  "sizeToBitLength sz = prod_list sz"

text \<open>
  Modelled from the spec: \<^verbatim>\<open>indicesToOffset\<close> is missing; "linear offset of Indices =
  \<open>\<Sum>\<close>_d Indices[d] \<open>\<cdot>\<close> \<open>\<Prod>\<close>_{k<d} Size[k]", a "mixed-radix weighted sum" whose
  precondition is that the indices are in range, and "len(Indices) == D for every
  addressing call" (\<^const>\<open>DimensionMismatch\<close> otherwise). For indices of the right length
  that are out of range the spec gives no value of this function; the model has the plain
  sum there too, and every statement below applies it to in-range indices only.
\<close>

definition indicesToOffset :: "int list \<Rightarrow> int list \<Rightarrow> error + int" where
  "indicesToOffset sz indices =
     (if length indices \<noteq> length sz then Inl DimensionMismatch
      else Inr (\<Sum>d\<leftarrow>[0..<length sz]. indices ! d * prod_list (take d sz)))"

text \<open>
  Modelled from the spec: \<^verbatim>\<open>offsetToIndices\<close> is missing; "inverse via successive
  modulo/divide by each Size[d] in dimension order".
\<close>

fun offsetToIndices :: "int list \<Rightarrow> int \<Rightarrow> int list" where
  "offsetToIndices [] off = []"
| "offsetToIndices (e # es) off = (off mod e) # offsetToIndices es (off div e)"

text \<open>
  Modelled from the spec: \<^verbatim>\<open>checkExpansion\<close> is missing; "per dimension d: required if
  Indices[d] < 0 or Indices[d] \<open>\<ge>\<close> Size[d]. When required: low[d] = min(0, Indices[d]),
  high[d] = max(Size[d]-1, Indices[d]), newSize[d] = high[d]-low[d]+1, originShift[d] =
  -low[d]. Returns none if no dimension needs change." In a dimension that requires nothing
  the same formulas give the old extent and a shift of 0.
\<close>

definition checkExpansion :: "int list \<Rightarrow> int list \<Rightarrow> error + Expansion option" where
  "checkExpansion sz indices =
     (if length indices \<noteq> length sz then Inl DimensionMismatch
      else if list_all2 (\<lambda>e i. \<not> (i < 0 \<or> e \<le> i)) sz indices then Inr None
      else Inr (Some \<lparr>size_e = map2 (\<lambda>e i. max (e - 1) i - min 0 i + 1) sz indices,
                      pos = map (\<lambda>i. - min 0 i) indices\<rparr>))"

section \<open>The matrix\<close>

text \<open>
  \<^verbatim>\<open>new BinaryMatrix(size, buffer)\<close>: the buffer defaults to a zero-filled one of
  \<^verbatim>\<open>sizeToBitLength(size)\<close> bits.
\<close>

definition new_BinaryMatrix :: "int list \<Rightarrow> bool list option \<Rightarrow> BinaryMatrix" where
  "new_BinaryMatrix sz buf =
     \<lparr>size_m = sz,
      buffer = (case buf of None \<Rightarrow> createBufferFromBitLength (sizeToBitLength sz) | Some b \<Rightarrow> b)\<rparr>"

definition bitLength :: "BinaryMatrix \<Rightarrow> int" where
  "bitLength this = sizeToBitLength (size_m this)"

text \<open>
  \<^verbatim>\<open>fromDimension\<close> fills an array of \<open>dimension\<close> entries with \<open>0\<close>; the array
  constructor refuses a negative length and one of \<open>2\<^sup>3\<^sup>2\<close> or more.
\<close>

definition fromDimension :: "int \<Rightarrow> error + BinaryMatrix" where
  "fromDimension dimension =
     (if dimension < 0 \<or> 2 ^ 32 \<le> dimension then Inl RangeError
      else Inr (new_BinaryMatrix (replicate (nat dimension) 0) None))"

definition fromSize :: "int list \<Rightarrow> BinaryMatrix" where
  "fromSize sz = new_BinaryMatrix sz None"

text \<open>
  \<^verbatim>\<open>fromString\<close>: \<^verbatim>\<open>rows[0].length\<close> is a \<^const>\<open>TypeError\<close> on an empty array;
  \<^verbatim>\<open>row[columnIndex]\<close> is \<^verbatim>\<open>undefined\<close> beyond the end of the row, and
  \<^verbatim>\<open>undefined !== '0'\<close> holds. The two loops run over the column and the row indices.
\<close>

definition charAt :: "string \<Rightarrow> nat \<Rightarrow> char option" where
  "charAt row columnIndex = (if columnIndex < length row then Some (row ! columnIndex) else None)"

fun fromString_columns :: "string \<Rightarrow> int \<Rightarrow> nat list \<Rightarrow> bool list \<Rightarrow> error + bool list" where
  "fromString_columns row bitOffset [] buf = Inr buf"
| "fromString_columns row bitOffset (columnIndex # rest) buf =
     (if charAt row columnIndex \<noteq> Some (CHR ''0'')
      then (case setBit buf (bitOffset + int columnIndex) True of
              Inl e \<Rightarrow> Inl e
            | Inr buf' \<Rightarrow> fromString_columns row bitOffset rest buf')
      else fromString_columns row bitOffset rest buf)"

fun fromString_rows :: "nat \<Rightarrow> nat \<Rightarrow> string list \<Rightarrow> bool list \<Rightarrow> error + bool list" where
  "fromString_rows columnCount rowIndex [] buf = Inr buf"
| "fromString_rows columnCount rowIndex (row # rest) buf =
     (case fromString_columns row (int columnCount * int rowIndex) [0..<columnCount] buf of
        Inl e \<Rightarrow> Inl e
      | Inr buf' \<Rightarrow> fromString_rows columnCount (Suc rowIndex) rest buf')"

definition fromString :: "string list \<Rightarrow> error + BinaryMatrix" where
  "fromString rows =
     (case rows of
        [] \<Rightarrow> Inl TypeError
      | row0 # _ \<Rightarrow>
          (let rowCount = length rows;
               columnCount = length row0;
               sz = [int columnCount, int rowCount];
               buf = createBufferFromBitLength (sizeToBitLength sz)
           in case fromString_rows columnCount 0 rows buf of
                Inl e \<Rightarrow> Inl e
              | Inr buf' \<Rightarrow> Inr (new_BinaryMatrix sz (Some buf'))))"

text \<open>
  \<^verbatim>\<open>2 ** bitLength - 1\<close> on the numbers of JavaScript, which are double-precision floats
  and hold every integer up to \<open>2\<^sup>5\<^sup>3\<close>: the difference is exact up to \<open>2\<^sup>5\<^sup>3 - 1\<close>; from
  \<open>bitLength = 54\<close> on it is rounded back to the power of two (\<^verbatim>\<open>2 ** 54 - 1 === 2 ** 54\<close>);
  from \<open>bitLength = 1024\<close> on the power is \<^verbatim>\<open>Infinity\<close>, no integer. Every other number
  the class computes is a bit count or an offset of a buffer and is held exactly.
\<close>

definition pow2_minus_1 :: "nat \<Rightarrow> error + int" where
  "pow2_minus_1 n =
     (if n \<le> 53 then Inr (2 ^ n - 1)
      else if n < 1024 then Inr (2 ^ n)
      else Inl UndefinedOperand)"

text \<open>
  The loop of \<^verbatim>\<open>decode\<close>. The decoder of the integer codec is the list of the integers
  still to come; \<^verbatim>\<open>decoder.next().value\<close> takes the first. When the list is exhausted
  the value is \<^verbatim>\<open>undefined\<close> and the source goes on with it: that outcome is
  \<^const>\<open>UndefinedOperand\<close>. The recursion is on the list, so the loop ends on every input.
\<close>

fun decode_runs :: "int \<Rightarrow> BitWriter \<Rightarrow> int \<Rightarrow> bool \<Rightarrow> nat list \<Rightarrow> error + BitWriter" where
  "decode_runs totalBitLength writer bitOffset state [] =
     (if bitOffset < totalBitLength then Inl UndefinedOperand else Inr writer)"
| "decode_runs totalBitLength writer bitOffset state (len # decoder) =
     (if bitOffset < totalBitLength
      then (case (if state then pow2_minus_1 len else Inr 0) of
              Inl e \<Rightarrow> Inl e
            | Inr v \<Rightarrow>
                decode_runs totalBitLength (writer_write writer v len)
                  (bitOffset + int len) (\<not> state) decoder)
      else Inr writer)"

text \<open>
  The integer codec \<^verbatim>\<open>@hookun/vlq\<close> is an external collaborator: its two functions are
  parameters of \<^verbatim>\<open>encode\<close> and \<^verbatim>\<open>decode\<close>.
\<close>

definition decode :: "('w \<Rightarrow> nat list) \<Rightarrow> 'w \<Rightarrow> error + BinaryMatrix" where
  "decode vlq_decode encoded =
     (case vlq_decode encoded of
        [] \<Rightarrow> Inl UndefinedOperand
      | dimensionCount # decoder \<Rightarrow>
          if length decoder < dimensionCount then Inl UndefinedOperand
          else
            (let sz = map int (take dimensionCount decoder);
                 totalBitLength = sizeToBitLength sz;
                 writer = new_BitWriter (createBufferFromBitLength totalBitLength)
             in case decode_runs totalBitLength writer 0 False (drop dimensionCount decoder) of
                  Inl e \<Rightarrow> Inl e
                | Inr writer' \<Rightarrow> Inr (new_BinaryMatrix sz (Some (writer_end writer')))))"

definition encode :: "(nat list \<Rightarrow> 'w) \<Rightarrow> BinaryMatrix \<Rightarrow> 'w" where
  "encode vlq_encode this =
     vlq_encode (length (size_m this) # map nat (size_m this)
                 @ runLength (buffer this) 0 (bitLength this))"

text \<open>
  Modelled from the spec: \<^verbatim>\<open>isSame\<close> is missing; "two matrices are equal iff identical
  Size and identical bit value at every Indices". The cells are visited by their offsets.
\<close>

definition isSame :: "BinaryMatrix \<Rightarrow> BinaryMatrix \<Rightarrow> bool" where
  "isSame a b \<longleftrightarrow>
     size_m a = size_m b \<and>
     (\<forall>off\<in>set [0..sizeToBitLength (size_m a) - 1]. getBit (buffer a) off = getBit (buffer b) off)"

definition isSameAs :: "BinaryMatrix \<Rightarrow> BinaryMatrix \<Rightarrow> bool" where
  "isSameAs this anotherMatrix = isSame this anotherMatrix"

definition get :: "BinaryMatrix \<Rightarrow> int list \<Rightarrow> error + bool" where
  "get this indices =
     (case indicesToOffset (size_m this) indices of
        Inl e \<Rightarrow> Inl e
      | Inr off \<Rightarrow> getBit (buffer this) off)"

definition setInternalBit :: "BinaryMatrix \<Rightarrow> int list \<Rightarrow> bool \<Rightarrow> error + BinaryMatrix" where
  "setInternalBit this indices state =
     (case indicesToOffset (size_m this) indices of
        Inl e \<Rightarrow> Inl e
      | Inr off \<Rightarrow>
          (case setBit (buffer this) off state of
             Inl e \<Rightarrow> Inl e
           | Inr buf \<Rightarrow> Inr (new_BinaryMatrix (size_m this) (Some buf))))"

text \<open>
  The generator \<^verbatim>\<open>listBit\<close> of the class: it yields before it tests the bound.
\<close>

fun listBit_loop :: "int list \<Rightarrow> int \<Rightarrow> int \<Rightarrow> bool list \<Rightarrow> (bool \<times> int list) list" where
  "listBit_loop sz bitLen bitOffset [] = []"
| "listBit_loop sz bitLen bitOffset (b # bits) =
     (b, offsetToIndices sz bitOffset) #
       (if bitLen \<le> bitOffset + 1 then [] else listBit_loop sz bitLen (bitOffset + 1) bits)"

definition listBit_m :: "BinaryMatrix \<Rightarrow> (bool \<times> int list) list" where
  "listBit_m this = listBit_loop (size_m this) (bitLength this) 0 (listBit (buffer this))"

definition list_m :: "BinaryMatrix \<Rightarrow> bool \<Rightarrow> int list list" where
  "list_m this state =
     map (offsetToIndices (size_m this)) (listBitHasState (buffer this) state 0 (bitLength this))"

text \<open>
  \<^verbatim>\<open>indices.map((index, dimension) => index + pos[dimension])\<close>: an entry of \<open>pos\<close>
  that is missing makes the sum \<^verbatim>\<open>NaN\<close>.
\<close>

definition translate :: "int list \<Rightarrow> int list \<Rightarrow> error + int list" where
  "translate indices p =
     (if length p < length indices then Inl UndefinedOperand
      else Inr (map (\<lambda>(index, dimension). index + p ! dimension) (zip indices [0..<length indices])))"

fun paste_loop :: "int list \<Rightarrow> int list \<Rightarrow> bool list \<Rightarrow> (bool \<times> int list) list \<Rightarrow> error + bool list" where
  "paste_loop sz p buf [] = Inr buf"
| "paste_loop sz p buf ((b, indices) # rest) =
     (case translate indices p of
        Inl e \<Rightarrow> Inl e
      | Inr sourceIndices \<Rightarrow>
          (case indicesToOffset sz sourceIndices of
             Inl e \<Rightarrow> Inl e
           | Inr bitOffset \<Rightarrow>
               (case getBit buf bitOffset of
                  Inl e \<Rightarrow> Inl e
                | Inr currentBit \<Rightarrow>
                    if currentBit \<noteq> b
                    then (case setBit buf bitOffset b of
                            Inl e \<Rightarrow> Inl e
                          | Inr buf' \<Rightarrow> paste_loop sz p buf' rest)
                    else paste_loop sz p buf rest)))"

definition paste :: "BinaryMatrix \<Rightarrow> BinaryMatrix \<Rightarrow> int list \<Rightarrow> error + BinaryMatrix" where
  "paste this patch p =
     (case paste_loop (size_m this) p (buffer this) (listBit_m patch) of
        Inl e \<Rightarrow> Inl e
      | Inr buf \<Rightarrow> Inr (new_BinaryMatrix (size_m this) (Some buf)))"

text \<open>
  \<^verbatim>\<open>set\<close> and \<^verbatim>\<open>setExternalBit\<close> call each other; the recursion may not end, so
  \<^verbatim>\<open>set\<close> is a partial function and \<open>None\<close> stands for a call that never returns.
  The body of \<^verbatim>\<open>setExternalBit\<close> is the last branch: it passes the indices it was given
  on to \<^verbatim>\<open>set\<close>, unchanged.
\<close>

partial_function (option) set_m ::
  "BinaryMatrix \<Rightarrow> int list \<Rightarrow> bool \<Rightarrow> (error + BinaryMatrix) option" where
  "set_m this indices state =
     (case checkExpansion (size_m this) indices of
        Inl e \<Rightarrow> Some (Inl e)
      | Inr None \<Rightarrow> Some (setInternalBit this indices state)
      | Inr (Some expansion) \<Rightarrow>
          (case paste (new_BinaryMatrix (size_e expansion) None) this (pos expansion) of
             Inl e \<Rightarrow> Some (Inl e)
           | Inr expanded \<Rightarrow> set_m expanded indices state))"

definition setExternalBit ::
  "BinaryMatrix \<Rightarrow> Expansion \<Rightarrow> int list \<Rightarrow> bool \<Rightarrow> (error + BinaryMatrix) option" where
  "setExternalBit this expansion indices state =
     (case paste (new_BinaryMatrix (size_e expansion) None) this (pos expansion) of
        Inl e \<Rightarrow> Some (Inl e)
      | Inr expanded \<Rightarrow> set_m expanded indices state)"

section \<open>The matrix on a store of buffers\<close>

text \<open>
  \<^verbatim>\<open>paste\<close> once more, with the buffers in a store (from addresses to contents) and a
  matrix holding the address of its buffer, to tell a write to a copy from a write to the
  buffer of \<^verbatim>\<open>this\<close>. \<^verbatim>\<open>this.buffer.slice(0)\<close> puts a copy at an address \<open>a\<close>;
  every \<^verbatim>\<open>getBit\<close> and \<^verbatim>\<open>setBit\<close> of the loop is on that address. The pairs of
  \<^verbatim>\<open>patch.listBit()\<close> are read from the store as it is when \<^verbatim>\<open>paste\<close> is called.
\<close>

type_synonym store = "nat \<Rightarrow> bool list"

record BinaryMatrix_ref =
  size_r :: "int list"
  buffer_r :: nat

definition deref :: "store \<Rightarrow> BinaryMatrix_ref \<Rightarrow> BinaryMatrix" where
  "deref \<sigma> r = \<lparr>size_m = size_r r, buffer = \<sigma> (buffer_r r)\<rparr>"

definition slice0 :: "store \<Rightarrow> nat \<Rightarrow> nat \<Rightarrow> store" where
  "slice0 \<sigma> src a = \<sigma>(a := \<sigma> src)"

fun paste_loop_store ::
  "int list \<Rightarrow> int list \<Rightarrow> nat \<Rightarrow> store \<Rightarrow> (bool \<times> int list) list \<Rightarrow> error + store" where
  "paste_loop_store sz p a \<sigma> [] = Inr \<sigma>"
| "paste_loop_store sz p a \<sigma> ((b, indices) # rest) =
     (case translate indices p of
        Inl e \<Rightarrow> Inl e
      | Inr sourceIndices \<Rightarrow>
          (case indicesToOffset sz sourceIndices of
             Inl e \<Rightarrow> Inl e
           | Inr bitOffset \<Rightarrow>
               (case getBit (\<sigma> a) bitOffset of
                  Inl e \<Rightarrow> Inl e
                | Inr currentBit \<Rightarrow>
                    if currentBit \<noteq> b
                    then (case setBit (\<sigma> a) bitOffset b of
                            Inl e \<Rightarrow> Inl e
                          | Inr buf' \<Rightarrow> paste_loop_store sz p a (\<sigma>(a := buf')) rest)
                    else paste_loop_store sz p a \<sigma> rest)))"

definition paste_store ::
  "store \<Rightarrow> nat \<Rightarrow> BinaryMatrix_ref \<Rightarrow> BinaryMatrix_ref \<Rightarrow> int list
     \<Rightarrow> error + (BinaryMatrix_ref \<times> store)" where
  "paste_store \<sigma> a this patch p =
     (case paste_loop_store (size_r this) p a (slice0 \<sigma> (buffer_r this) a)
             (listBit_m (deref \<sigma> patch)) of
        Inl e \<Rightarrow> Inl e
      | Inr \<sigma>' \<Rightarrow> Inr (\<lparr>size_r = size_r this, buffer_r = a\<rparr>, \<sigma>'))"

section \<open>Notions for the statements\<close>

text \<open>
  Indices that address a cell: one per dimension, each within its extent.
\<close>

definition inRange :: "int list \<Rightarrow> int list \<Rightarrow> bool" where
  "inRange sz indices = list_all2 (\<lambda>e i. 0 \<le> i \<and> i < e) sz indices"

text \<open>
  The matrices the factories and the operations produce: no negative extent, and a buffer
  of the whole bytes that hold \<^const>\<open>bitLength\<close> bits. Every reachable matrix is one
  (\<open>reachable_wellFormed\<close> below).
\<close>

definition wellFormed :: "BinaryMatrix \<Rightarrow> bool" where
  "wellFormed this \<longleftrightarrow>
     list_all (\<lambda>e. 0 \<le> e) (size_m this) \<and>
     length (buffer this) = 8 * nat ((bitLength this + 7) div 8)"

text \<open>
  The bits a stream of alternating run lengths stands for.
\<close>

fun expand :: "bool \<Rightarrow> nat list \<Rightarrow> bool list" where
  "expand state [] = []"
| "expand state (n # ns) = replicate n state @ expand (\<not> state) ns"

text \<open>
  Run lengths, the first of bits equal to \<open>state\<close>, in which no run of 1 bits is longer
  than 53: those for which \<^const>\<open>pow2_minus_1\<close> is exact.
\<close>

fun exactRuns :: "bool \<Rightarrow> nat list \<Rightarrow> bool" where
  "exactRuns state [] = True"
| "exactRuns state (n # ns) = ((state \<longrightarrow> n \<le> 53) \<and> exactRuns (\<not> state) ns)"

text \<open>
  The weighted sum in Horner form, used in the proofs only.
\<close>

fun weighted :: "int list \<Rightarrow> int list \<Rightarrow> int" where
  "weighted (e # es) (i # ix) = i + e * weighted es ix"
| "weighted _ _ = 0"

text \<open>
  The matrices a client can reach: built by a factory (\<^verbatim>\<open>fromSize\<close> from extents that
  are not negative, \<^verbatim>\<open>decode\<close> from any sequence of integers) and closed under
  \<^verbatim>\<open>set\<close> and \<^verbatim>\<open>paste\<close>.
\<close>

inductive reachable :: "BinaryMatrix \<Rightarrow> bool" where
  by_fromDimension: "fromDimension dimension = Inr m \<Longrightarrow> reachable m"
| by_fromSize: "list_all (\<lambda>e. 0 \<le> e) sz \<Longrightarrow> reachable (fromSize sz)"
| by_fromString: "fromString rows = Inr m \<Longrightarrow> reachable m"
| by_decode: "decode (\<lambda>ws. ws) encoded = Inr m \<Longrightarrow> reachable m"
| by_set: "reachable this \<Longrightarrow> set_m this indices state = Some (Inr m) \<Longrightarrow> reachable m"
| by_paste: "reachable this \<Longrightarrow> reachable patch \<Longrightarrow> paste this patch p = Inr m \<Longrightarrow> reachable m"

section \<open>Offsets and indices\<close>

lemma sum_weights_Cons:
  "(\<Sum>d\<leftarrow>[0..<Suc n]. (i # ix) ! d * prod_list (take d (e # es)))
     = (i::int) + e * (\<Sum>d\<leftarrow>[0..<n]. ix ! d * prod_list (take d es))"
proof -
  have "[0..<Suc n] = 0 # map Suc [0..<n]"
    by (simp add: upt_conv_Cons map_Suc_upt del: upt_Suc)
  then have "(\<Sum>d\<leftarrow>[0..<Suc n]. (i # ix) ! d * prod_list (take d (e # es)))
      = i + (\<Sum>d\<leftarrow>[0..<n]. ix ! d * (e * prod_list (take d es)))"
    by (simp add: comp_def del: upt_Suc)
  also have "(\<Sum>d\<leftarrow>[0..<n]. ix ! d * (e * prod_list (take d es)))
     = (\<Sum>d\<leftarrow>[0..<n]. e * (ix ! d * prod_list (take d es)))"
    by (rule arg_cong [where f = sum_list]) (simp add: mult.left_commute)
  finally show ?thesis
    by (simp add: sum_list_const_mult)
qed

lemma sum_weights_weighted:
  "length ix = length sz \<Longrightarrow>
     (\<Sum>d\<leftarrow>[0..<length sz]. ix ! d * prod_list (take d sz)) = weighted sz ix"
proof (induction sz arbitrary: ix)
  case Nil
  then show ?case by simp
next
  case (Cons e es)
  then obtain i js where is_eq: "ix = i # js" and len: "length js = length es"
    by (cases ix) auto
  show ?case
    unfolding is_eq using Cons.IH [OF len] sum_weights_Cons [where n = "length es" and i = i and ix = js and e = e and es = es]
    by simp
qed

lemma indicesToOffset_weighted:
  "length ix = length sz \<Longrightarrow> indicesToOffset sz ix = Inr (weighted sz ix)"
  by (simp add: indicesToOffset_def sum_weights_weighted)

lemma inRange_length: "inRange sz ix \<Longrightarrow> length ix = length sz"
  by (simp add: inRange_def list_all2_lengthD)

lemma inRange_Cons:
  "inRange (e # es) (i # ix) \<longleftrightarrow> 0 \<le> i \<and> i < e \<and> inRange es ix"
  by (simp add: inRange_def)

lemma inRange_Nil: "inRange [] ix \<longleftrightarrow> ix = []"
  by (simp add: inRange_def)

lemma inRange_nth:
  "inRange sz ix \<longleftrightarrow> length sz = length ix \<and> (\<forall>d < length sz. 0 \<le> ix ! d \<and> ix ! d < sz ! d)"
  by (simp add: inRange_def list_all2_conv_all_nth)

lemma weighted_bounds:
  "inRange sz ix \<Longrightarrow> 0 \<le> weighted sz ix \<and> weighted sz ix < prod_list sz"
proof (induction sz arbitrary: ix)
  case Nil
  then show ?case by (simp add: inRange_Nil)
next
  case (Cons e es)
  then obtain i js where is_eq: "ix = i # js" and i: "0 \<le> i" "i < e" and rest: "inRange es js"
    by (cases ix) (auto simp: inRange_def)
  from Cons.IH [OF rest] have w: "0 \<le> weighted es js" "weighted es js + 1 \<le> prod_list es"
    by auto
  from i have e: "0 \<le> e" by simp
  have "e * (weighted es js + 1) \<le> e * prod_list es"
    using w(2) e by (rule mult_left_mono)
  then have "i + e * weighted es js < e * prod_list es"
    using i by (simp add: distrib_left)
  moreover have "0 \<le> i + e * weighted es js"
    using i e w(1) by simp
  ultimately show ?case by (simp add: is_eq)
qed

lemma offsetToIndices_weighted:
  "inRange sz ix \<Longrightarrow> offsetToIndices sz (weighted sz ix) = ix"
proof (induction sz arbitrary: ix)
  case Nil
  then show ?case by (simp add: inRange_Nil)
next
  case (Cons e es)
  then obtain i js where is_eq: "ix = i # js" and i: "0 \<le> i" "i < e" and rest: "inRange es js"
    by (cases ix) (auto simp: inRange_def)
  have "(i + e * weighted es js) mod e = i"
    using i by simp
  moreover have "(i + e * weighted es js) div e = weighted es js"
    using i by simp
  ultimately show ?case
    using Cons.IH [OF rest] by (simp add: is_eq)
qed

lemma weighted_inj:
  "inRange sz ix \<Longrightarrow> inRange sz js \<Longrightarrow> weighted sz ix = weighted sz js \<Longrightarrow> ix = js"
  using offsetToIndices_weighted by metis

lemma offsetToIndices_inRange:
  "\<forall>e\<in>set sz. 0 < e \<Longrightarrow> 0 \<le> off \<Longrightarrow> off < prod_list sz \<Longrightarrow>
     inRange sz (offsetToIndices sz off) \<and> weighted sz (offsetToIndices sz off) = off"
proof (induction sz arbitrary: off)
  case Nil
  then show ?case by (simp add: inRange_Nil)
next
  case (Cons e es)
  from Cons.prems have e: "0 < e" and es: "\<forall>x\<in>set es. 0 < x"
    and off: "0 \<le> off" "off < e * prod_list es"
    by auto
  have d0: "0 \<le> off div e"
    using off(1) e by (simp add: pos_imp_zdiv_nonneg_iff)
  have "e * (off div e) + off mod e = off"
    by simp
  moreover have "0 \<le> off mod e"
    using e by simp
  ultimately have below: "e * (off div e) \<le> off"
    by linarith
  have d1: "off div e < prod_list es"
  proof (rule ccontr)
    assume "\<not> off div e < prod_list es"
    then have "e * prod_list es \<le> e * (off div e)"
      using e by (simp add: mult_left_mono)
    with below off(2) show False by simp
  qed
  from Cons.IH [OF es d0 d1]
  have "inRange es (offsetToIndices es (off div e))"
    and "weighted es (offsetToIndices es (off div e)) = off div e"
    by auto
  then show ?case
    using e by (simp add: inRange_Cons)
qed

section \<open>Well-formed matrices and in-range access\<close>

lemma prod_list_nonneg: "list_all (\<lambda>e. 0 \<le> e) sz \<Longrightarrow> 0 \<le> prod_list (sz :: int list)"
  by (induction sz) simp_all

lemma prod_list_pos_all:
  "list_all (\<lambda>e. 0 \<le> e) sz \<Longrightarrow> 0 < prod_list (sz :: int list) \<Longrightarrow> \<forall>e\<in>set sz. 0 < e"
proof (induction sz)
  case Nil
  then show ?case by simp
next
  case (Cons a sz)
  then have a: "0 \<le> a" and rest: "list_all (\<lambda>e. 0 \<le> e) sz" and p: "0 < a * prod_list sz"
    by simp_all
  from p have "a \<noteq> 0" and "prod_list sz \<noteq> 0" by auto
  with a prod_list_nonneg [OF rest] have "0 < a" and "0 < prod_list sz" by simp_all
  with Cons.IH [OF rest] show ?case by simp
qed

lemma wellFormed_bitLength_nonneg: "wellFormed this \<Longrightarrow> 0 \<le> bitLength this"
  by (simp add: wellFormed_def bitLength_def sizeToBitLength_def prod_list_nonneg)

lemma wellFormed_buffer_holds: "wellFormed this \<Longrightarrow> bitLength this \<le> int (length (buffer this))"
  by (simp add: wellFormed_def) linarith

lemma wellFormed_sizes_pos:
  "wellFormed this \<Longrightarrow> 0 < bitLength this \<Longrightarrow> \<forall>e\<in>set (size_m this). 0 < e"
  using prod_list_pos_all [of "size_m this"]
  by (simp add: wellFormed_def bitLength_def sizeToBitLength_def)

lemma wellFormed_new:
  "list_all (\<lambda>e. 0 \<le> e) sz \<Longrightarrow> wellFormed (new_BinaryMatrix sz None)"
  by (simp add: wellFormed_def new_BinaryMatrix_def bitLength_def createBufferFromBitLength_def)

lemma inRange_offset:
  "inRange (size_m this) ix \<Longrightarrow>
     indicesToOffset (size_m this) ix = Inr (weighted (size_m this) ix) \<and>
     0 \<le> weighted (size_m this) ix \<and> weighted (size_m this) ix < bitLength this"
  using weighted_bounds [of "size_m this" ix]
  by (simp add: indicesToOffset_weighted inRange_length bitLength_def sizeToBitLength_def)

lemma get_inRange:
  "wellFormed this \<Longrightarrow> inRange (size_m this) ix \<Longrightarrow>
     get this ix = Inr (buffer this ! nat (weighted (size_m this) ix))"
  using inRange_offset [of this ix] wellFormed_buffer_holds [of this]
  by (simp add: get_def getBit_def)

lemma getBit_inside:
  "0 \<le> off \<Longrightarrow> off < int (length buf) \<Longrightarrow> getBit buf off = Inr (buf ! nat off)"
  by (simp add: getBit_def)

lemma checkExpansion_inRange:
  "inRange sz ix \<Longrightarrow> checkExpansion sz ix = Inr None"
proof -
  assume r: "inRange sz ix"
  have "(\<lambda>e i. \<not> (i < 0 \<or> e \<le> i)) = (\<lambda>e i. 0 \<le> i \<and> i < (e::int))"
    by (intro ext) auto
  with r show ?thesis
    by (simp add: checkExpansion_def inRange_def list_all2_lengthD)
qed

lemma setInternalBit_inRange:
  "wellFormed this \<Longrightarrow> inRange (size_m this) ix \<Longrightarrow>
     setInternalBit this ix v =
       Inr \<lparr>size_m = size_m this, buffer = (buffer this)[nat (weighted (size_m this) ix) := v]\<rparr>"
  using inRange_offset [of this ix] wellFormed_buffer_holds [of this]
  by (simp add: setInternalBit_def setBit_def new_BinaryMatrix_def)

lemma set_m_inRange:
  "wellFormed this \<Longrightarrow> inRange (size_m this) ix \<Longrightarrow>
     set_m this ix v =
       Some (Inr \<lparr>size_m = size_m this, buffer = (buffer this)[nat (weighted (size_m this) ix) := v]\<rparr>)"
  by (subst set_m.simps) (simp add: checkExpansion_inRange setInternalBit_inRange)

lemma wellFormed_update:
  "wellFormed this \<Longrightarrow> wellFormed \<lparr>size_m = size_m this, buffer = (buffer this)[k := v]\<rparr>"
  by (simp add: wellFormed_def bitLength_def)

lemma update_cell:
  assumes wf: "wellFormed this" and i: "inRange (size_m this) i"
  shows "get \<lparr>size_m = size_m this, buffer = (buffer this)[nat (weighted (size_m this) i) := v]\<rparr> i = Inr v \<and>
         (\<forall>j. inRange (size_m this) j \<and> j \<noteq> i \<longrightarrow>
            get \<lparr>size_m = size_m this, buffer = (buffer this)[nat (weighted (size_m this) i) := v]\<rparr> j
              = get this j)"
proof -
  let ?k = "nat (weighted (size_m this) i)"
  let ?m = "\<lparr>size_m = size_m this, buffer = (buffer this)[?k := v]\<rparr>"
  have wf': "wellFormed ?m" using wf by (rule wellFormed_update)
  have i': "inRange (size_m ?m) i" using i by simp
  have k: "?k < length (buffer this)"
    using inRange_offset [OF i] wellFormed_buffer_holds [OF wf] by linarith
  have 2: "get ?m i = Inr v"
    using get_inRange [OF wf' i'] k by simp
  have 3: "get ?m j = get this j" if j: "inRange (size_m this) j" "j \<noteq> i" for j
  proof -
    have "weighted (size_m this) j \<noteq> weighted (size_m this) i"
      using weighted_inj [OF j(1) i] j(2) by auto
    moreover have "0 \<le> weighted (size_m this) j" "0 \<le> weighted (size_m this) i"
      using inRange_offset [OF i] inRange_offset [OF j(1)] by simp_all
    ultimately have "nat (weighted (size_m this) j) \<noteq> ?k"
      by simp
    moreover have "inRange (size_m ?m) j" using j by simp
    ultimately show ?thesis
      using get_inRange [OF wf', of j] get_inRange [OF wf j(1)] by simp
  qed
  from 2 3 show ?thesis by blast
qed

section \<open>The cells in offset order\<close>

lemma map_upt_Suc_shift: "map f [0..<Suc m] = f 0 # map (\<lambda>k. f (Suc k)) [0..<m]"
  by (simp add: upt_conv_Cons map_Suc_upt [symmetric] del: upt_Suc)

lemma listBit_loop_upto:
  "bitOffset < bitLen \<Longrightarrow> bitLen - bitOffset \<le> int (length bits) \<Longrightarrow>
     listBit_loop sz bitLen bitOffset bits
       = map (\<lambda>k. (bits ! k, offsetToIndices sz (bitOffset + int k))) [0..<nat (bitLen - bitOffset)]"
proof (induction bits arbitrary: bitOffset)
  case Nil
  then show ?case by simp
next
  case (Cons b bits)
  show ?case
  proof (cases "bitLen \<le> bitOffset + 1")
    case True
    with Cons.prems have "nat (bitLen - bitOffset) = Suc 0" by simp
    with True show ?thesis by simp
  next
    case False
    then have lt: "bitOffset + 1 < bitLen" by simp
    have le: "bitLen - (bitOffset + 1) \<le> int (length bits)"
      using Cons.prems by simp
    have n: "nat (bitLen - bitOffset) = Suc (nat (bitLen - (bitOffset + 1)))"
      using lt by simp
    show ?thesis
      using False Cons.IH [OF lt le]
      unfolding n map_upt_Suc_shift
      by (simp add: add.assoc)
  qed
qed

lemma listBit_m_entries:
  assumes wf: "wellFormed patch"
  shows "listBit_m patch
    = map (\<lambda>k. (buffer patch ! k, offsetToIndices (size_m patch) (int k))) [0..<nat (bitLength patch)]"
proof (cases "0 < bitLength patch")
  case True
  then show ?thesis
    using listBit_loop_upto [of 0 "bitLength patch" "buffer patch" "size_m patch"]
      wellFormed_buffer_holds [OF wf]
    by (simp add: listBit_m_def listBit_def)
next
  case False
  with wellFormed_bitLength_nonneg [OF wf] have z: "bitLength patch = 0" by simp
  with wf have "buffer patch = []" by (simp add: wellFormed_def)
  with z show ?thesis by (simp add: listBit_m_def listBit_def)
qed

lemma offsets_of_wellFormed:
  assumes wf: "wellFormed patch" and k: "k < nat (bitLength patch)"
  shows "inRange (size_m patch) (offsetToIndices (size_m patch) (int k)) \<and>
         weighted (size_m patch) (offsetToIndices (size_m patch) (int k)) = int k"
proof -
  from k have pos: "0 < bitLength patch" by simp
  have "int k < prod_list (size_m patch)"
    using k by (simp add: bitLength_def sizeToBitLength_def)
  with offsetToIndices_inRange [OF wellFormed_sizes_pos [OF wf pos], of "int k"]
  show ?thesis by simp
qed

lemma listBitHasState_split:
  assumes "stop \<le> int (length buf)"
  shows "length (listBitHasState buf True 0 stop) + length (listBitHasState buf False 0 stop)
           = nat stop"
proof -
  have "filter (\<lambda>off. getBit buf off = Inr False) [0..stop - 1]
      = filter (\<lambda>off. \<not> getBit buf off = Inr True) [0..stop - 1]"
    using assms by (intro filter_cong) (auto simp: getBit_inside)
  then have "length (listBitHasState buf True 0 stop) + length (listBitHasState buf False 0 stop)
      = length [0..stop - 1]"
    by (simp add: listBitHasState_def sum_length_filter_compl)
  then show ?thesis by simp
qed

lemma listBitHasState_member:
  "off \<in> set (listBitHasState buf state 0 stop) \<Longrightarrow>
     0 \<le> off \<and> off < stop \<and> getBit buf off = Inr state"
  by (auto simp: listBitHasState_def)

section \<open>Pasting\<close>

text \<open>
  A sequence of single-bit writes at distinct places.
\<close>

lemma fold_update_length:
  "length (fold (\<lambda>k b. b[t k := v k]) ks buf) = length buf"
  by (induction ks arbitrary: buf) simp_all

lemma fold_update_other:
  "j \<notin> t ` set ks \<Longrightarrow> fold (\<lambda>k b. b[t k := v k]) ks buf ! j = buf ! j"
  by (induction ks arbitrary: buf) auto

lemma fold_update_hit:
  "k \<in> set ks \<Longrightarrow> distinct (map t ks) \<Longrightarrow> t k < length buf \<Longrightarrow>
     fold (\<lambda>k b. b[t k := v k]) ks buf ! t k = v k"
proof (induction ks arbitrary: buf)
  case Nil
  then show ?case by simp
next
  case (Cons a ks)
  show ?case
  proof (cases "k \<in> set ks")
    case True
    with Cons show ?thesis by simp
  next
    case False
    with Cons.prems have ka: "k = a" and "t a \<notin> t ` set ks" by auto
    then show ?thesis
      using Cons.prems(3) by (simp add: fold_update_other)
  qed
qed

lemma translate_map2:
  "length p = length indices \<Longrightarrow> translate indices p = Inr (map2 (+) indices p)"
  by (auto simp: translate_def intro!: nth_equalityI)

lemma paste_loop_fold:
  assumes "\<forall>k\<in>set ks. length (ix k) = length p \<and> inRange sz (map2 (+) (ix k) p)"
    and "prod_list sz \<le> int (length buf)"
  shows "paste_loop sz p buf (map (\<lambda>k. (v k, ix k)) ks)
    = Inr (fold (\<lambda>k b. b[nat (weighted sz (map2 (+) (ix k) p)) := v k]) ks buf)"
  using assms
proof (induction ks arbitrary: buf)
  case Nil
  then show ?case by simp
next
  case (Cons k ks)
  let ?t = "weighted sz (map2 (+) (ix k) p)"
  from Cons.prems have len: "length p = length (ix k)" and r: "inRange sz (map2 (+) (ix k) p)"
    by simp_all
  have tr: "translate (ix k) p = Inr (map2 (+) (ix k) p)"
    using len by (rule translate_map2)
  have off: "indicesToOffset sz (map2 (+) (ix k) p) = Inr ?t"
    by (rule indicesToOffset_weighted [OF inRange_length [OF r]])
  have b: "0 \<le> ?t" "?t < int (length buf)"
    using weighted_bounds [OF r] Cons.prems(2) by simp_all
  have rest: "\<forall>k\<in>set ks. length (ix k) = length p \<and> inRange sz (map2 (+) (ix k) p)"
    using Cons.prems(1) by simp
  have same: "buf[nat ?t := buf ! nat ?t] = buf"
    by simp
  show ?case
  proof (cases "buf ! nat ?t = v k")
    case True
    then show ?thesis
      using tr off b Cons.IH [OF rest Cons.prems(2)] same
      by (simp add: getBit_def)
  next
    case False
    have "prod_list sz \<le> int (length (buf[nat ?t := v k]))"
      using Cons.prems(2) by simp
    from Cons.IH [OF rest this] False show ?thesis
      using tr off b by (simp add: getBit_def setBit_def)
  qed
qed

lemma map2_add_inj:
  assumes "map2 (+) a p = map2 (+) b (p :: int list)" "length a = length p" "length b = length p"
  shows "a = b"
proof (rule nth_equalityI)
  show "length a = length b" using assms by simp
next
  fix i assume i: "i < length a"
  from assms(1) have "map2 (+) a p ! i = map2 (+) b p ! i" by simp
  with i assms(2,3) show "a ! i = b ! i" by simp
qed

lemma paste_result:
  assumes wf: "wellFormed this" and wfp: "wellFormed patch"
    and len: "length p = length (size_m patch)"
    and fit: "\<forall>ix. inRange (size_m patch) ix \<longrightarrow> inRange (size_m this) (map2 (+) ix p)"
  shows "\<exists>r. paste this patch p = Inr r \<and> size_m r = size_m this \<and> wellFormed r \<and>
           (\<forall>ix. inRange (size_m patch) ix \<longrightarrow> get r (map2 (+) ix p) = get patch ix) \<and>
           (\<forall>j. inRange (size_m this) j \<and> (\<forall>ix. inRange (size_m patch) ix \<longrightarrow> j \<noteq> map2 (+) ix p)
                \<longrightarrow> get r j = get this j)"
proof -
  let ?sz = "size_m this" and ?psz = "size_m patch"
  let ?n = "nat (bitLength patch)"
  let ?ix = "\<lambda>k. offsetToIndices ?psz (int k)"
  let ?w = "\<lambda>k. weighted ?sz (map2 (+) (?ix k) p)"
  let ?t = "\<lambda>k. nat (?w k)"
  let ?v = "\<lambda>k. buffer patch ! k"
  let ?buf = "fold (\<lambda>k b. b[?t k := ?v k]) [0..<?n] (buffer this)"
  let ?r = "\<lparr>size_m = ?sz, buffer = ?buf\<rparr>"
  have cell: "inRange ?psz (?ix k)" "weighted ?psz (?ix k) = int k" if "k < ?n" for k
    using offsets_of_wellFormed [OF wfp that] by simp_all
  have target: "inRange ?sz (map2 (+) (?ix k) p)" if "k < ?n" for k
    using fit cell(1) [OF that] by simp
  have bound: "0 \<le> ?w k" "?w k < int (length (buffer this))" if "k < ?n" for k
    using weighted_bounds [OF target [OF that]] wellFormed_buffer_holds [OF wf]
    by (simp_all add: bitLength_def sizeToBitLength_def)
  have inj: "k = k'" if k: "k < ?n" "k' < ?n" and eq: "?t k = ?t k'" for k k'
  proof -
    from eq bound(1) [OF k(1)] bound(1) [OF k(2)] have "?w k = ?w k'" by simp
    from weighted_inj [OF target [OF k(1)] target [OF k(2)] this]
    have "map2 (+) (?ix k) p = map2 (+) (?ix k') p" .
    moreover have "length (?ix k) = length p" "length (?ix k') = length p"
      using inRange_length [OF cell(1) [OF k(1)]] inRange_length [OF cell(1) [OF k(2)]] len
      by simp_all
    ultimately have "?ix k = ?ix k'" by (rule map2_add_inj)
    then have "weighted ?psz (?ix k) = weighted ?psz (?ix k')" by (rule arg_cong)
    then have "int k = int k'" unfolding cell(2) [OF k(1)] cell(2) [OF k(2)] .
    then show ?thesis by simp
  qed
  have dist: "distinct (map ?t [0..<?n])"
    unfolding distinct_map using inj by (auto intro!: inj_onI)
  have entries: "listBit_m patch = map (\<lambda>k. (?v k, ?ix k)) [0..<?n]"
    using wfp by (rule listBit_m_entries)
  have "\<forall>k\<in>set [0..<?n]. length (?ix k) = length p \<and> inRange ?sz (map2 (+) (?ix k) p)"
    using target cell(1) len by (simp add: inRange_length)
  moreover have "prod_list ?sz \<le> int (length (buffer this))"
    using wellFormed_buffer_holds [OF wf] by (simp add: bitLength_def sizeToBitLength_def)
  ultimately have loop: "paste_loop ?sz p (buffer this) (listBit_m patch) = Inr ?buf"
    unfolding entries by (rule paste_loop_fold)
  have 1: "paste this patch p = Inr ?r"
    by (simp add: paste_def loop new_BinaryMatrix_def)
  have wfr: "wellFormed ?r"
    using wf by (simp add: wellFormed_def bitLength_def fold_update_length)
  have 2: "get ?r (map2 (+) ix p) = get patch ix" if r: "inRange ?psz ix" for ix
  proof -
    let ?k = "nat (weighted ?psz ix)"
    have wb: "0 \<le> weighted ?psz ix" "weighted ?psz ix < bitLength patch"
      using weighted_bounds [OF r] by (simp_all add: bitLength_def sizeToBitLength_def)
    then have k: "?k < ?n" by simp
    have ix: "?ix ?k = ix"
      using offsetToIndices_weighted [OF r] wb(1) by simp
    have t: "?t ?k = nat (weighted ?sz (map2 (+) ix p))"
      by (simp only: ix)
    have "inRange (size_m ?r) (map2 (+) ix p)"
      using fit r by simp
    from get_inRange [OF wfr this]
    have "get ?r (map2 (+) ix p) = Inr (?buf ! nat (weighted ?sz (map2 (+) ix p)))"
      by simp
    then have "get ?r (map2 (+) ix p) = Inr (?buf ! ?t ?k)"
      unfolding t .
    also have "?buf ! ?t ?k = ?v ?k"
      using k dist bound(2) [OF k] bound(1) [OF k]
      by (intro fold_update_hit) simp_all
    also have "Inr (?v ?k) = get patch ix"
      using get_inRange [OF wfp r] by simp
    finally show ?thesis .
  qed
  have 3: "get ?r j = get this j"
    if j: "inRange ?sz j" and free: "\<forall>ix. inRange ?psz ix \<longrightarrow> j \<noteq> map2 (+) ix p" for j
  proof -
    have "nat (weighted ?sz j) \<notin> ?t ` set [0..<?n]"
    proof
      assume "nat (weighted ?sz j) \<in> ?t ` set [0..<?n]"
      then obtain k where k: "k < ?n" and eq: "nat (weighted ?sz j) = ?t k" by auto
      from eq bound(1) [OF k] weighted_bounds [OF j] have "weighted ?sz j = ?w k" by linarith
      from weighted_inj [OF j target [OF k] this] have "j = map2 (+) (?ix k) p" .
      with free cell(1) [OF k] show False by blast
    qed
    then have "?buf ! nat (weighted ?sz j) = buffer this ! nat (weighted ?sz j)"
      by (rule fold_update_other)
    moreover have "inRange (size_m ?r) j" using j by simp
    ultimately show ?thesis
      using get_inRange [OF wfr, of j] get_inRange [OF wf j] by simp
  qed
  from 1 wfr 2 3 show ?thesis by auto
qed

text \<open>
  The loop on the store writes what the loop on the copy computes, at the address of the copy.
\<close>

lemma paste_loop_store_value:
  "paste_loop_store sz p a \<sigma> entries
     = (case paste_loop sz p (\<sigma> a) entries of Inl e \<Rightarrow> Inl e | Inr buf \<Rightarrow> Inr (\<sigma>(a := buf)))"
proof (induction entries arbitrary: \<sigma>)
  case Nil
  then show ?case by simp
next
  case (Cons entry entries)
  obtain b indices where entry: "entry = (b, indices)" by (cases entry)
  show ?case
    unfolding entry by (auto simp: Cons.IH fun_eq_iff split: sum.splits)
qed

lemma paste_store_value:
  "paste_store \<sigma> a this patch p
     = (case paste (deref \<sigma> this) (deref \<sigma> patch) p of
          Inl e \<Rightarrow> Inl e
        | Inr r \<Rightarrow> Inr (\<lparr>size_r = size_r this, buffer_r = a\<rparr>, \<sigma>(a := buffer r)))"
  by (simp add: paste_store_def paste_loop_store_value paste_def slice0_def deref_def
      new_BinaryMatrix_def split: sum.splits)

section \<open>Growing\<close>

lemma checkExpansion_outside:
  assumes "length indices = length sz" "\<not> inRange sz indices"
  shows "checkExpansion sz indices
    = Inr (Some \<lparr>size_e = map2 (\<lambda>e i. max (e - 1) i - min 0 i + 1) sz indices,
                  pos = map (\<lambda>i. - min 0 i) indices\<rparr>)"
proof -
  have "(\<lambda>e i. \<not> (i < 0 \<or> e \<le> i)) = (\<lambda>e i. 0 \<le> i \<and> i < (e::int))"
    by (intro ext) auto
  with assms show ?thesis
    by (simp add: checkExpansion_def inRange_def)
qed

lemma expansion_fits:
  assumes "length indices = length sz" "inRange sz ix"
  shows "inRange (map2 (\<lambda>e i. max (e - 1) i - min 0 i + 1) sz indices)
           (map2 (+) ix (map (\<lambda>i. - min 0 i) indices))"
  using assms by (auto simp: inRange_nth)

lemma grow_nonneg: "0 \<le> e \<Longrightarrow> 0 \<le> max (e - 1) i - min 0 i + (1::int)"
  by linarith

lemma expansion_nonneg:
  assumes "length indices = length sz" "list_all (\<lambda>e. 0 \<le> e) (sz :: int list)"
  shows "list_all (\<lambda>e. 0 \<le> e) (map2 (\<lambda>e i. max (e - 1) i - min 0 i + 1) sz indices)"
proof -
  have "0 \<le> max (sz ! n - 1) (indices ! n) - min 0 (indices ! n) + 1" if "n < length sz" for n
    using assms(2) that by (intro grow_nonneg) (simp add: list_all_length)
  then show ?thesis
    using assms(1) by (simp add: list_all_length)
qed

lemma negative_not_inRange:
  assumes "\<exists>i\<in>set indices. i < 0"
  shows "\<not> inRange sz indices"
proof
  assume r: "inRange sz indices"
  from assms obtain d where d: "d < length indices" "indices ! d < 0"
    by (auto simp: in_set_conv_nth)
  with r have "0 \<le> indices ! d"
    by (simp add: inRange_nth)
  with d(2) show False by simp
qed

lemma grow_paste:
  assumes wf: "wellFormed this" and len: "length indices = length (size_m this)"
  shows "\<exists>expanded.
     paste (new_BinaryMatrix (map2 (\<lambda>e i. max (e - 1) i - min 0 i + 1) (size_m this) indices) None)
       this (map (\<lambda>i. - min 0 i) indices) = Inr expanded \<and>
     size_m expanded = map2 (\<lambda>e i. max (e - 1) i - min 0 i + 1) (size_m this) indices \<and>
     wellFormed expanded \<and>
     (\<forall>ix. inRange (size_m this) ix \<longrightarrow>
        get expanded (map2 (+) ix (map (\<lambda>i. - min 0 i) indices)) = get this ix) \<and>
     (\<forall>j. inRange (size_m expanded) j \<and>
          (\<forall>ix. inRange (size_m this) ix \<longrightarrow> j \<noteq> map2 (+) ix (map (\<lambda>i. - min 0 i) indices))
        \<longrightarrow> get expanded j = Inr False)"
proof -
  let ?new = "map2 (\<lambda>e i. max (e - 1) i - min 0 i + 1) (size_m this) indices"
  let ?p = "map (\<lambda>i. - min 0 i) indices"
  let ?z = "new_BinaryMatrix ?new None"
  have nn: "list_all (\<lambda>e. 0 \<le> e) (size_m this)"
    using wf by (simp add: wellFormed_def)
  have wfz: "wellFormed ?z"
    using expansion_nonneg [OF len nn] by (rule wellFormed_new)
  have sz: "size_m ?z = ?new"
    by (simp add: new_BinaryMatrix_def)
  have fit: "\<forall>ix. inRange (size_m this) ix \<longrightarrow> inRange (size_m ?z) (map2 (+) ix ?p)"
    unfolding sz using expansion_fits [OF len] by blast
  have lp: "length ?p = length (size_m this)"
    using len by simp
  have zero: "get ?z j = Inr False" if "inRange (size_m ?z) j" for j
  proof -
    have "nat (weighted (size_m ?z) j) < length (buffer ?z)"
      using inRange_offset [OF that] wellFormed_buffer_holds [OF wfz] by linarith
    then have "buffer ?z ! nat (weighted (size_m ?z) j) = False"
      by (simp add: new_BinaryMatrix_def createBufferFromBitLength_def)
    with get_inRange [OF wfz that] show ?thesis by simp
  qed
  from paste_result [OF wfz wf lp fit] obtain r where r: "paste ?z this ?p = Inr r"
    "size_m r = size_m ?z" "wellFormed r"
    "\<forall>ix. inRange (size_m this) ix \<longrightarrow> get r (map2 (+) ix ?p) = get this ix"
    "\<forall>j. inRange (size_m ?z) j \<and> (\<forall>ix. inRange (size_m this) ix \<longrightarrow> j \<noteq> map2 (+) ix ?p)
        \<longrightarrow> get r j = get ?z j"
    by blast
  have "get r j = Inr False"
    if "inRange (size_m r) j" "\<forall>ix. inRange (size_m this) ix \<longrightarrow> j \<noteq> map2 (+) ix ?p" for j
    using r(5) that zero [of j] r(2) by simp
  with r(1-4) sz show ?thesis
    by auto
qed

text \<open>
  With a negative index the recursion of \<^verbatim>\<open>set\<close> never ends: the expanded matrix is
  well-formed again, and the indices, passed on unchanged, are still negative.
\<close>

lemma set_m_negative_never_returns:
  assumes "set_m this indices state = Some y"
  shows "\<not> (wellFormed this \<and> length indices = length (size_m this) \<and> (\<exists>i\<in>set indices. i < 0))"
proof (rule set_m.raw_induct
    [where P = "\<lambda>this indices state y.
        \<not> (wellFormed this \<and> length indices = length (size_m this) \<and> (\<exists>i\<in>set indices. i < 0))",
     OF _ assms])
  fix set_m' this indices state and y :: "error + BinaryMatrix"
  assume IH: "\<And>this indices state y. set_m' this indices state = Some y \<Longrightarrow>
      \<not> (wellFormed this \<and> length indices = length (size_m this) \<and> (\<exists>i\<in>set indices. i < 0))"
    and body: "(case checkExpansion (size_m this) indices of
        Inl e \<Rightarrow> Some (Inl e)
      | Inr None \<Rightarrow> Some (setInternalBit this indices state)
      | Inr (Some expansion) \<Rightarrow>
          (case paste (new_BinaryMatrix (size_e expansion) None) this (pos expansion) of
             Inl e \<Rightarrow> Some (Inl e)
           | Inr expanded \<Rightarrow> set_m' expanded indices state)) = Some y"
  show "\<not> (wellFormed this \<and> length indices = length (size_m this) \<and> (\<exists>i\<in>set indices. i < 0))"
  proof
    assume a: "wellFormed this \<and> length indices = length (size_m this) \<and> (\<exists>i\<in>set indices. i < 0)"
    then have wf: "wellFormed this" and len: "length indices = length (size_m this)"
      and neg: "\<exists>i\<in>set indices. i < 0"
      by simp_all
    let ?new = "map2 (\<lambda>e i. max (e - 1) i - min 0 i + 1) (size_m this) indices"
    let ?p = "map (\<lambda>i. - min 0 i) indices"
    have ce: "checkExpansion (size_m this) indices = Inr (Some \<lparr>size_e = ?new, pos = ?p\<rparr>)"
      using len negative_not_inRange [OF neg] by (rule checkExpansion_outside)
    from grow_paste [OF wf len] obtain expanded where
      e: "paste (new_BinaryMatrix ?new None) this ?p = Inr expanded"
      "size_m expanded = ?new" "wellFormed expanded"
      by blast
    from body have "set_m' expanded indices state = Some y"
      by (simp add: ce e(1))
    from IH [OF this] e(2,3) len neg show False
      by simp
  qed
qed

lemma set_m_negative_diverges:
  "wellFormed this \<Longrightarrow> length indices = length (size_m this) \<Longrightarrow> \<exists>i\<in>set indices. i < 0 \<Longrightarrow>
     set_m this indices state = None"
  using set_m_negative_never_returns [of this indices state] by (cases "set_m this indices state") auto

text \<open>
  Without a negative index the origin does not move: \<^verbatim>\<open>set\<close> recurses once, on indices
  that are in range of the grown matrix, and keeps every cell where it was.
\<close>

lemma shift_nonneg:
  assumes "\<forall>i\<in>set indices. 0 \<le> i" "length ix = length indices"
  shows "map2 (+) ix (map (\<lambda>i. - min 0 i) indices) = (ix :: int list)"
  using assms by (auto simp: list_eq_iff_nth_eq min_def)

lemma set_m_grows:
  assumes wf: "wellFormed this" and len: "length indices = length (size_m this)"
    and nonneg: "\<forall>i\<in>set indices. 0 \<le> i" and out: "\<not> inRange (size_m this) indices"
  shows "\<exists>m. set_m this indices state = Some (Inr m) \<and> wellFormed m \<and>
           size_m m = map2 (\<lambda>e i. max (e - 1) i - min 0 i + 1) (size_m this) indices \<and>
           get m indices = Inr state \<and>
           (\<forall>j. inRange (size_m this) j \<longrightarrow> inRange (size_m m) j \<and> get m j = get this j)"
proof -
  let ?new = "map2 (\<lambda>e i. max (e - 1) i - min 0 i + 1) (size_m this) indices"
  let ?p = "map (\<lambda>i. - min 0 i) indices"
  have ce: "checkExpansion (size_m this) indices = Inr (Some \<lparr>size_e = ?new, pos = ?p\<rparr>)"
    using len out by (rule checkExpansion_outside)
  from grow_paste [OF wf len] obtain expanded where
    e: "paste (new_BinaryMatrix ?new None) this ?p = Inr expanded"
    "size_m expanded = ?new" "wellFormed expanded"
    "\<forall>ix. inRange (size_m this) ix \<longrightarrow> get expanded (map2 (+) ix ?p) = get this ix"
    by blast
  have same: "map2 (+) ix ?p = ix" if "inRange (size_m this) ix" for ix
    using shift_nonneg [OF nonneg] inRange_length [OF that] len by simp
  have keep: "get expanded j = get this j" if "inRange (size_m this) j" for j
  proof -
    from e(4) that have "get expanded (map2 (+) j ?p) = get this j" by blast
    then show ?thesis unfolding same [OF that] .
  qed
  have inside: "inRange (size_m expanded) j" if "inRange (size_m this) j" for j
  proof -
    from expansion_fits [OF len that] have "inRange ?new (map2 (+) j ?p)" .
    then show ?thesis unfolding same [OF that] e(2) .
  qed
  have target: "inRange (size_m expanded) indices"
    unfolding e(2) using nonneg len by (auto simp: inRange_nth)
  let ?m = "\<lparr>size_m = size_m expanded,
             buffer = (buffer expanded)[nat (weighted (size_m expanded) indices) := state]\<rparr>"
  have "set_m this indices state = set_m expanded indices state"
    by (subst set_m.simps) (simp add: ce e(1))
  then have 1: "set_m this indices state = Some (Inr ?m)"
    using set_m_inRange [OF e(3) target] by simp
  have 2: "wellFormed ?m"
    using e(3) by (rule wellFormed_update)
  note cell = update_cell [OF e(3) target, of state]
  have 4: "inRange (size_m ?m) j \<and> get ?m j = get this j" if j: "inRange (size_m this) j" for j
  proof -
    from j out have "j \<noteq> indices" by auto
    with cell inside [OF j] have "get ?m j = get expanded j" by blast
    with keep [OF j] inside [OF j] show ?thesis by simp
  qed
  from 1 2 cell 4 e(2) show ?thesis
    by auto
qed

section \<open>Run lengths and the sequential writer\<close>

lemma length_expand: "length (expand state ns) = sum_list ns"
  by (induction ns arbitrary: state) simp_all

lemma expand_runs: "expand state (runs state n bits) = replicate n state @ bits"
proof (induction bits arbitrary: state n)
  case Nil
  then show ?case by simp
next
  case (Cons b bits)
  show ?case
  proof (cases "b = state")
    case True
    then show ?thesis
      using Cons.IH [of state "Suc n"] by (simp add: replicate_app_Cons_same)
  next
    case False
    then have b: "b = (\<not> state)" by auto
    show ?thesis
      unfolding b using Cons.IH [of "\<not> state" 1] by simp
  qed
qed

lemma sum_list_runs: "sum_list (runs state n bits) = n + length bits"
  by (induction bits arbitrary: state n) simp_all

lemma runs_not_Nil: "runs state n bits \<noteq> []"
  by (induction bits arbitrary: state n) simp_all

lemma bit_all_ones: "bit (2 ^ n - 1 :: int) k \<longleftrightarrow> k < n"
  by (simp add: mask_eq_exp_minus_1 [symmetric] bit_mask_iff)

lemma fold_range_length:
  "length (fold (\<lambda>k b. b[c + k := g k]) ks buf) = length buf"
  by (induction ks arbitrary: buf) simp_all

lemma fold_range_nth:
  "i < length buf \<Longrightarrow>
     fold (\<lambda>k b. b[c + k := g k]) [0..<n] buf ! i
       = (if c \<le> i \<and> i < c + n then g (i - c) else buf ! i)"
proof (induction n)
  case 0
  then show ?case by auto
next
  case (Suc n)
  show ?case
  proof (cases "i = c + n")
    case True
    then show ?thesis
      using Suc.prems by (simp add: fold_range_length)
  next
    case False
    then have "(c \<le> i \<and> i < c + Suc n) = (c \<le> i \<and> i < c + n)"
      by auto
    then show ?thesis
      using False Suc by simp
  qed
qed

lemma writer_write_run:
  "cursor (writer_write w (if state then 2 ^ n - 1 else 0) n) = cursor w + n \<and>
   length (wbuffer (writer_write w (if state then 2 ^ n - 1 else 0) n)) = length (wbuffer w) \<and>
   (\<forall>i < length (wbuffer w).
      wbuffer (writer_write w (if state then 2 ^ n - 1 else 0) n) ! i
        = (if cursor w \<le> i \<and> i < cursor w + n then state else wbuffer w ! i))"
  by (auto simp: writer_write_def fold_range_length fold_range_nth bit_all_ones)

lemma decode_runs_prefix:
  assumes "cursor w = nat off" and "0 \<le> off" and "int (sum_list rs) = tot - off"
    and "exactRuns state rs"
  shows "\<exists>w'. decode_runs tot w off state (rs @ extra) = Inr w' \<and>
           length (wbuffer w') = length (wbuffer w) \<and>
           (\<forall>i < length (wbuffer w).
              wbuffer w' ! i = (if nat off \<le> i \<and> i < nat tot
                                then expand state rs ! (i - nat off) else wbuffer w ! i))"
  using assms
proof (induction rs arbitrary: w off state)
  case Nil
  then have "\<not> off < tot" by simp
  then have "decode_runs tot w off state extra = Inr w"
    by (cases extra) simp_all
  with Nil show ?case by auto
next
  case (Cons r rs)
  show ?case
  proof (cases "off < tot")
    case False
    then have "nat tot \<le> nat off" by linarith
    then have "\<And>i. \<not> (nat off \<le> i \<and> i < nat tot)" by linarith
    moreover have "decode_runs tot w off state ((r # rs) @ extra) = Inr w"
      using False by simp
    ultimately show ?thesis by auto
  next
    case True
    let ?w1 = "writer_write w (if state then 2 ^ r - 1 else 0) r"
    note w1 = writer_write_run [of w state r]
    have c: "cursor ?w1 = nat (off + int r)"
      using w1 Cons.prems(1,2) by (simp add: nat_add_distrib)
    have s: "int (sum_list rs) = tot - (off + int r)"
      using Cons.prems(3) by simp
    have x: "exactRuns (\<not> state) rs" and v: "(if state then pow2_minus_1 r else Inr 0)
        = Inr (if state then 2 ^ r - 1 else 0)"
      using Cons.prems(4) by (simp_all add: pow2_minus_1_def)
    from Cons.IH [OF c _ s x] Cons.prems(2)
    obtain w' where w': "decode_runs tot ?w1 (off + int r) (\<not> state) (rs @ extra) = Inr w'"
      "length (wbuffer w') = length (wbuffer ?w1)"
      "\<forall>i < length (wbuffer ?w1).
          wbuffer w' ! i = (if nat (off + int r) \<le> i \<and> i < nat tot
                            then expand (\<not> state) rs ! (i - nat (off + int r)) else wbuffer ?w1 ! i)"
      by auto
    have run: "decode_runs tot w off state ((r # rs) @ extra) = Inr w'"
      using True w'(1) by (simp add: v)
    have len: "length (wbuffer w') = length (wbuffer w)"
      using w'(2) w1 by simp
    have fits: "nat off + r \<le> nat tot"
      using Cons.prems(2,3) by simp
    have split: "nat (off + int r) = nat off + r"
      using Cons.prems(2) by (simp add: nat_add_distrib)
    have "wbuffer w' ! i = (if nat off \<le> i \<and> i < nat tot
                             then expand state (r # rs) ! (i - nat off) else wbuffer w ! i)"
      if i: "i < length (wbuffer w)" for i
    proof -
      from i w1 have i1: "i < length (wbuffer ?w1)" by simp
      have a: "wbuffer w' ! i = (if nat off + r \<le> i \<and> i < nat tot
                            then expand (\<not> state) rs ! (i - (nat off + r)) else wbuffer ?w1 ! i)"
        using w'(3) i1 unfolding split by blast
      have b: "wbuffer ?w1 ! i = (if nat off \<le> i \<and> i < nat off + r then state else wbuffer w ! i)"
        using w1 i Cons.prems(1) by simp
      show ?thesis
        unfolding a b using fits by (auto simp: nth_append)
    qed
    with run len show ?thesis by blast
  qed
qed

lemma decode_prefix:
  assumes enc: "vlq_decode encoded = length sz # sz @ rs @ extra"
    and sum: "int (sum_list rs) = prod_list (map int sz)"
    and exact: "exactRuns False rs"
  shows "decode vlq_decode encoded
    = Inr \<lparr>size_m = map int sz,
           buffer = expand False rs
                    @ replicate (8 * nat ((int (sum_list rs) + 7) div 8) - sum_list rs) False\<rparr>"
proof -
  let ?tot = "int (sum_list rs)"
  let ?w = "new_BitWriter (createBufferFromBitLength ?tot)"
  let ?len = "8 * nat ((?tot + 7) div 8)"
  have lenw: "length (wbuffer ?w) = ?len"
    by (simp add: new_BitWriter_def createBufferFromBitLength_def)
  have zero: "wbuffer ?w ! i = False" if "i < ?len" for i
    using that by (simp add: new_BitWriter_def createBufferFromBitLength_def)
  have fits: "sum_list rs \<le> ?len"
    by linarith
  from decode_runs_prefix [of ?w 0 rs ?tot False extra] exact
  obtain w' where w': "decode_runs ?tot ?w 0 False (rs @ extra) = Inr w'"
    "length (wbuffer w') = ?len"
    "\<forall>i < ?len. wbuffer w' ! i = (if i < sum_list rs then expand False rs ! i else wbuffer ?w ! i)"
    unfolding lenw by (auto simp: new_BitWriter_def)
  have "wbuffer w' = expand False rs @ replicate (?len - sum_list rs) False"
  proof (rule nth_equalityI)
    show "length (wbuffer w') = length (expand False rs @ replicate (?len - sum_list rs) False)"
      using w'(2) fits by (simp add: length_expand)
  next
    fix i assume "i < length (wbuffer w')"
    then have i: "i < ?len" using w'(2) by simp
    show "wbuffer w' ! i = (expand False rs @ replicate (?len - sum_list rs) False) ! i"
      using w'(3) i zero [OF i] by (simp add: nth_append length_expand)
  qed
  then show ?thesis
    using enc sum w'(1)
    by (simp add: decode_def Let_def sizeToBitLength_def writer_end_def new_BinaryMatrix_def)
qed

text \<open>
  The same for runs that reach the total or pass it: \<open>rs\<close> are the runs the loop reads,
  every proper prefix of them stays below the total.
\<close>

lemma decode_runs_reach:
  assumes "cursor w = nat off" and "0 \<le> off"
    and "\<forall>k < length rs. off + int (sum_list (take k rs)) < tot"
    and "tot \<le> off + int (sum_list rs)"
    and "exactRuns state rs"
  shows "\<exists>w'. decode_runs tot w off state (rs @ extra) = Inr w' \<and>
           length (wbuffer w') = length (wbuffer w) \<and>
           (\<forall>i < length (wbuffer w).
              wbuffer w' ! i = (if nat off \<le> i \<and> i < nat off + sum_list rs
                                then expand state rs ! (i - nat off) else wbuffer w ! i))"
  using assms
proof (induction rs arbitrary: w off state)
  case Nil
  then have "\<not> off < tot" by simp
  then have "decode_runs tot w off state extra = Inr w"
    by (cases extra) simp_all
  then show ?case by auto
next
  case (Cons r rs)
  from Cons.prems(3) have "off + int (sum_list (take 0 (r # rs))) < tot"
    by blast
  then have go: "off < tot" by simp
  let ?w1 = "writer_write w (if state then 2 ^ r - 1 else 0) r"
  note w1 = writer_write_run [of w state r]
  have c: "cursor ?w1 = nat (off + int r)"
    using w1 Cons.prems(1,2) by (simp add: nat_add_distrib)
  have n: "0 \<le> off + int r"
    using Cons.prems(2) by simp
  have below: "\<forall>k < length rs. off + int r + int (sum_list (take k rs)) < tot"
  proof (intro allI impI)
    fix k assume "k < length rs"
    then have "Suc k < length (r # rs)" by simp
    with Cons.prems(3) have "off + int (sum_list (take (Suc k) (r # rs))) < tot"
      by blast
    then show "off + int r + int (sum_list (take k rs)) < tot" by simp
  qed
  have reach: "tot \<le> off + int r + int (sum_list rs)"
    using Cons.prems(4) by simp
  have x: "exactRuns (\<not> state) rs" and v: "(if state then pow2_minus_1 r else Inr 0)
      = Inr (if state then 2 ^ r - 1 else 0)"
    using Cons.prems(5) by (simp_all add: pow2_minus_1_def)
  from Cons.IH [OF c n below reach x]
  obtain w' where w': "decode_runs tot ?w1 (off + int r) (\<not> state) (rs @ extra) = Inr w'"
    "length (wbuffer w') = length (wbuffer ?w1)"
    "\<forall>i < length (wbuffer ?w1).
        wbuffer w' ! i = (if nat (off + int r) \<le> i \<and> i < nat (off + int r) + sum_list rs
                          then expand (\<not> state) rs ! (i - nat (off + int r)) else wbuffer ?w1 ! i)"
    by auto
  have run: "decode_runs tot w off state ((r # rs) @ extra) = Inr w'"
    using go w'(1) by (simp add: v)
  have len: "length (wbuffer w') = length (wbuffer w)"
    using w'(2) w1 by simp
  have split: "nat (off + int r) = nat off + r"
    using Cons.prems(2) by (simp add: nat_add_distrib)
  have "wbuffer w' ! i = (if nat off \<le> i \<and> i < nat off + sum_list (r # rs)
                           then expand state (r # rs) ! (i - nat off) else wbuffer w ! i)"
    if i: "i < length (wbuffer w)" for i
  proof -
    from i w1 have i1: "i < length (wbuffer ?w1)" by simp
    have a: "wbuffer w' ! i = (if nat off + r \<le> i \<and> i < nat off + r + sum_list rs
                          then expand (\<not> state) rs ! (i - (nat off + r)) else wbuffer ?w1 ! i)"
      using w'(3) i1 unfolding split by blast
    have b: "wbuffer ?w1 ! i = (if nat off \<le> i \<and> i < nat off + r then state else wbuffer w ! i)"
      using w1 i Cons.prems(1) by simp
    show ?thesis
      unfolding a b by (auto simp: nth_append)
  qed
  with run len show ?case by blast
qed

lemma decode_reach:
  assumes enc: "vlq_decode encoded = length sz # sz @ rs @ extra"
    and below: "\<forall>k < length rs. int (sum_list (take k rs)) < prod_list (map int sz)"
    and reach: "prod_list (map int sz) \<le> int (sum_list rs)"
    and exact: "exactRuns False rs"
  shows "decode vlq_decode encoded
    = Inr \<lparr>size_m = map int sz,
           buffer = take (8 * nat ((prod_list (map int sz) + 7) div 8))
                      (expand False rs
                       @ replicate (8 * nat ((prod_list (map int sz) + 7) div 8)) False)\<rparr>"
proof -
  let ?tot = "prod_list (map int sz)"
  let ?w = "new_BitWriter (createBufferFromBitLength ?tot)"
  let ?len = "8 * nat ((?tot + 7) div 8)"
  have lenw: "length (wbuffer ?w) = ?len"
    by (simp add: new_BitWriter_def createBufferFromBitLength_def)
  have zero: "wbuffer ?w ! i = False" if "i < ?len" for i
    using that by (simp add: new_BitWriter_def createBufferFromBitLength_def)
  have c: "cursor ?w = nat 0"
    by (simp add: new_BitWriter_def)
  from decode_runs_reach [of ?w 0 rs ?tot False extra, OF c] below reach exact
  obtain w' where w': "decode_runs ?tot ?w 0 False (rs @ extra) = Inr w'"
    "length (wbuffer w') = ?len"
    "\<forall>i < ?len. wbuffer w' ! i = (if i < sum_list rs then expand False rs ! i else wbuffer ?w ! i)"
    unfolding lenw by auto
  have "wbuffer w' = take ?len (expand False rs @ replicate ?len False)"
  proof (rule nth_equalityI)
    show "length (wbuffer w') = length (take ?len (expand False rs @ replicate ?len False))"
      using w'(2) by (simp add: length_expand min_def)
  next
    fix i assume "i < length (wbuffer w')"
    then have i: "i < ?len" using w'(2) by simp
    show "wbuffer w' ! i = take ?len (expand False rs @ replicate ?len False) ! i"
      using w'(3) i zero [OF i] by (simp add: nth_append length_expand)
  qed
  then show ?thesis
    using enc w'(1)
    by (simp add: decode_def Let_def sizeToBitLength_def writer_end_def new_BinaryMatrix_def)
qed

lemma map_int_nat: "list_all (\<lambda>e. 0 \<le> e) sz \<Longrightarrow> map int (map nat sz) = sz"
  by (induction sz) simp_all

lemma isSame_take:
  assumes "wellFormed a" "wellFormed b"
  shows "isSame a b \<longleftrightarrow>
     size_m a = size_m b \<and> take (nat (bitLength a)) (buffer a) = take (nat (bitLength a)) (buffer b)"
proof (cases "size_m a = size_m b")
  case False
  then show ?thesis by (simp add: isSame_def)
next
  case True
  then have bl: "bitLength b = bitLength a" by (simp add: bitLength_def)
  let ?n = "nat (bitLength a)"
  have la: "?n \<le> length (buffer a)" and lb: "?n \<le> length (buffer b)"
    using wellFormed_buffer_holds [OF assms(1)] wellFormed_buffer_holds [OF assms(2)] bl
    by simp_all
  have "(\<forall>off\<in>set [0..bitLength a - 1]. getBit (buffer a) off = getBit (buffer b) off)
      \<longleftrightarrow> (\<forall>k < ?n. buffer a ! k = buffer b ! k)" (is "?L \<longleftrightarrow> ?R")
  proof
    assume l: ?L
    show ?R
    proof (intro allI impI)
      fix k assume k: "k < ?n"
      then have "int k \<in> set [0..bitLength a - 1]" by simp
      with l have "getBit (buffer a) (int k) = getBit (buffer b) (int k)" by blast
      with k la lb show "buffer a ! k = buffer b ! k" by (simp add: getBit_def)
    qed
  next
    assume r: ?R
    show ?L
    proof
      fix off assume "off \<in> set [0..bitLength a - 1]"
      then have o: "0 \<le> off" "nat off < ?n" by simp_all
      with r have "buffer a ! nat off = buffer b ! nat off" by blast
      moreover from o la lb have "off < int (length (buffer a))" "off < int (length (buffer b))"
        by linarith+
      ultimately show "getBit (buffer a) off = getBit (buffer b) off"
        using o(1) by (simp add: getBit_def)
    qed
  qed
  also have "\<dots> \<longleftrightarrow> take ?n (buffer a) = take ?n (buffer b)"
    using la lb by (auto simp: list_eq_iff_nth_eq)
  finally show ?thesis
    using True by (simp add: isSame_def bitLength_def)
qed

section \<open>Rows of text\<close>

lemma fromString_columns_cells:
  assumes "0 \<le> off" "\<forall>c\<in>set cols. off + int c < int (length buf)"
  shows "\<exists>buf'. fromString_columns row off cols buf = Inr buf' \<and> length buf' = length buf \<and>
           (\<forall>k < length buf. buf' ! k
              = (buf ! k \<or> (\<exists>c\<in>set cols. k = nat off + c \<and> charAt row c \<noteq> Some (CHR ''0''))))"
  using assms
proof (induction cols arbitrary: buf)
  case Nil
  then show ?case by simp
next
  case (Cons c cols)
  let ?hit = "charAt row c \<noteq> Some (CHR ''0'')"
  let ?buf1 = "if ?hit then buf[nat off + c := True] else buf"
  have in_buf: "0 \<le> off + int c" "off + int c < int (length buf)"
    using Cons.prems by simp_all
  have n: "nat (off + int c) = nat off + c"
    using Cons.prems(1) by (simp add: nat_add_distrib)
  have step: "fromString_columns row off (c # cols) buf = fromString_columns row off cols ?buf1"
    using in_buf by (simp add: setBit_def n)
  have "\<forall>c\<in>set cols. off + int c < int (length ?buf1)"
    using Cons.prems(2) by simp
  from Cons.IH [OF Cons.prems(1) this] obtain buf' where
    b: "fromString_columns row off cols ?buf1 = Inr buf'" "length buf' = length ?buf1"
    "\<forall>k < length ?buf1. buf' ! k
        = (?buf1 ! k \<or> (\<exists>c\<in>set cols. k = nat off + c \<and> charAt row c \<noteq> Some (CHR ''0'')))"
    by blast
  have "buf' ! k = (buf ! k \<or> (\<exists>c'\<in>set (c # cols). k = nat off + c' \<and> charAt row c' \<noteq> Some (CHR ''0'')))"
    if k: "k < length buf" for k
  proof -
    have "nat off + c < length buf"
      using in_buf n by linarith
    then have "?buf1 ! k = (buf ! k \<or> (k = nat off + c \<and> ?hit))"
      using k by (auto simp: nth_list_update)
    moreover have "buf' ! k
        = (?buf1 ! k \<or> (\<exists>c\<in>set cols. k = nat off + c \<and> charAt row c \<noteq> Some (CHR ''0'')))"
      using b(3) k by simp
    ultimately show ?thesis by auto
  qed
  with step b(1,2) show ?case
    by auto
qed

lemma fromString_rows_cells:
  assumes "int columnCount * int (rowIndex + length rows) \<le> int (length buf)"
  shows "\<exists>buf'. fromString_rows columnCount rowIndex rows buf = Inr buf' \<and> length buf' = length buf \<and>
           (\<forall>k < length buf. buf' ! k
              = (buf ! k \<or> (\<exists>r < length rows. \<exists>c < columnCount.
                    k = columnCount * (rowIndex + r) + c \<and> charAt (rows ! r) c \<noteq> Some (CHR ''0''))))"
  using assms
proof (induction rows arbitrary: rowIndex buf)
  case Nil
  then show ?case by simp
next
  case (Cons row rows)
  let ?off = "int columnCount * int rowIndex"
  have room: "columnCount * (rowIndex + Suc (length rows)) \<le> length buf"
    using Cons.prems by (metis length_Cons of_nat_le_iff of_nat_mult)
  have "\<forall>c\<in>set [0..<columnCount]. ?off + int c < int (length buf)"
  proof
    fix c assume "c \<in> set [0..<columnCount]"
    then have "columnCount * rowIndex + c < columnCount * (rowIndex + Suc (length rows))"
      by (simp add: algebra_simps)
    with room have "columnCount * rowIndex + c < length buf" by linarith
    then show "?off + int c < int (length buf)"
      by (metis of_nat_add of_nat_less_iff of_nat_mult)
  qed
  from fromString_columns_cells [OF _ this, of row] obtain buf1 where
    b1: "fromString_columns row ?off [0..<columnCount] buf = Inr buf1" "length buf1 = length buf"
    "\<forall>k < length buf. buf1 ! k
        = (buf ! k \<or> (\<exists>c\<in>set [0..<columnCount]. k = nat ?off + c \<and> charAt row c \<noteq> Some (CHR ''0'')))"
    by auto
  have off: "nat ?off = columnCount * rowIndex"
    by (metis nat_int of_nat_mult)
  have "int columnCount * int (Suc rowIndex + length rows) \<le> int (length buf1)"
    using Cons.prems b1(2) by simp
  from Cons.IH [OF this] obtain buf' where
    b: "fromString_rows columnCount (Suc rowIndex) rows buf1 = Inr buf'" "length buf' = length buf1"
    "\<forall>k < length buf1. buf' ! k
        = (buf1 ! k \<or> (\<exists>r < length rows. \<exists>c < columnCount.
              k = columnCount * (Suc rowIndex + r) + c \<and> charAt (rows ! r) c \<noteq> Some (CHR ''0'')))"
    by blast
  have "buf' ! k = (buf ! k \<or> (\<exists>r < length (row # rows). \<exists>c < columnCount.
            k = columnCount * (rowIndex + r) + c \<and> charAt ((row # rows) ! r) c \<noteq> Some (CHR ''0'')))"
    (is "_ = (_ \<or> ?R)") if k: "k < length buf" for k
  proof -
    let ?A = "\<exists>c < columnCount. k = columnCount * rowIndex + c \<and> charAt row c \<noteq> Some (CHR ''0'')"
    let ?B = "\<exists>r < length rows. \<exists>c < columnCount.
              k = columnCount * (Suc rowIndex + r) + c \<and> charAt (rows ! r) c \<noteq> Some (CHR ''0'')"
    have "buf' ! k = (buf ! k \<or> ?A \<or> ?B)"
      using b(3) b1(2,3) k off by auto
    moreover have "?R \<longleftrightarrow> ?A \<or> ?B"
    proof
      assume ?R
      then obtain r c where rc: "r < Suc (length rows)" "c < columnCount"
        "k = columnCount * (rowIndex + r) + c" "charAt ((row # rows) ! r) c \<noteq> Some (CHR ''0'')"
        by auto
      show "?A \<or> ?B"
      proof (cases r)
        case 0
        with rc show ?thesis by auto
      next
        case (Suc r')
        with rc have "r' < length rows" "k = columnCount * (Suc rowIndex + r') + c"
          "charAt (rows ! r') c \<noteq> Some (CHR ''0'')"
          by simp_all
        with rc(2) show ?thesis by blast
      qed
    next
      assume "?A \<or> ?B"
      then show ?R
      proof
        assume ?A
        then obtain c where "c < columnCount" "k = columnCount * (rowIndex + 0) + c"
          "charAt ((row # rows) ! 0) c \<noteq> Some (CHR ''0'')"
          by auto
        then show ?R by (intro exI [of _ 0]) auto
      next
        assume ?B
        then obtain r c where "r < length rows" "c < columnCount"
          "k = columnCount * (rowIndex + Suc r) + c"
          "charAt ((row # rows) ! Suc r) c \<noteq> Some (CHR ''0'')"
          by auto
        then show ?R by (intro exI [of _ "Suc r"]) auto
      qed
    qed
    ultimately show ?thesis by blast
  qed
  with b1(1,2) b(1,2) show ?case
    by auto
qed

lemma row_column_unique:
  assumes "c < columnCount" "c' < columnCount" "columnCount * r + c = columnCount * r' + (c' :: nat)"
  shows "r = r' \<and> c = c'"
proof -
  have "(columnCount * r + c) div columnCount = r" "(columnCount * r' + c') div columnCount = r'"
    using assms(1,2) by simp_all
  with assms(3) have "r = r'" by simp
  with assms(3) show ?thesis by simp
qed

lemma fromString_cells:
  assumes "rows \<noteq> []"
  shows "\<exists>m. fromString rows = Inr m \<and>
           size_m m = [int (length (hd rows)), int (length rows)] \<and> wellFormed m \<and>
           (\<forall>r < length rows. \<forall>c < length (hd rows).
              get m [int c, int r] = Inr (charAt (rows ! r) c \<noteq> Some (CHR ''0'')))"
proof -
  from assms obtain row0 rest where rows: "rows = row0 # rest" by (cases rows) auto
  define cc where "cc = length row0"
  define rc where "rc = length rows"
  define buf0 where "buf0 = createBufferFromBitLength (sizeToBitLength [int cc, int rc])"
  have len0: "length buf0 = 8 * nat ((int (cc * rc) + 7) div 8)"
    by (simp add: buf0_def createBufferFromBitLength_def sizeToBitLength_def)
  have room: "cc * rc \<le> length buf0"
    unfolding len0 by linarith
  have zero: "buf0 ! k = False" if "k < length buf0" for k
    using that by (simp add: buf0_def createBufferFromBitLength_def)
  have "int cc * int (0 + length rows) \<le> int (length buf0)"
    using room by (metis add_0 of_nat_le_iff of_nat_mult rc_def)
  from fromString_rows_cells [OF this] obtain buf' where
    b: "fromString_rows cc 0 rows buf0 = Inr buf'" "length buf' = length buf0"
    "\<forall>k < length buf0. buf' ! k
        = (buf0 ! k \<or> (\<exists>r < length rows. \<exists>c < cc.
              k = cc * (0 + r) + c \<and> charAt (rows ! r) c \<noteq> Some (CHR ''0'')))"
    by blast
  define m where "m = \<lparr>size_m = [int cc, int rc], buffer = buf'\<rparr>"
  have 1: "fromString rows = Inr m"
    using b(1) unfolding rows
    by (simp add: fromString_def Let_def m_def cc_def rc_def buf0_def new_BinaryMatrix_def rows)
  have 2: "size_m m = [int (length (hd rows)), int (length rows)]"
    by (simp add: m_def cc_def rc_def rows)
  have 3: "wellFormed m"
    using b(2) len0 by (simp add: wellFormed_def m_def bitLength_def sizeToBitLength_def)
  have 4: "get m [int c, int r] = Inr (charAt (rows ! r) c \<noteq> Some (CHR ''0''))"
    if r: "r < length rows" and c: "c < length (hd rows)" for r c
  proof -
    from c have c': "c < cc" by (simp add: cc_def rows)
    from r have r': "r < rc" by (simp add: rc_def)
    have "cc * r + c < cc * Suc r" using c' by simp
    also have "\<dots> \<le> cc * rc" using r' by (intro mult_le_mono2) simp
    finally have k: "cc * r + c < length buf0" using room by simp
    have off: "indicesToOffset [int cc, int rc] [int c, int r] = Inr (int (cc * r + c))"
      by (simp add: indicesToOffset_def upt_conv_Cons)
    have "buf' ! (cc * r + c)
        = (\<exists>r' < length rows. \<exists>c'' < cc. cc * r + c = cc * r' + c'' \<and>
             charAt (rows ! r') c'' \<noteq> Some (CHR ''0''))"
      using b(3) k zero [OF k] by simp
    also have "\<dots> = (charAt (rows ! r) c \<noteq> Some (CHR ''0''))"
      using row_column_unique [OF c'] r c' by blast
    finally have "buf' ! (cc * r + c) = (charAt (rows ! r) c \<noteq> Some (CHR ''0''))" .
    moreover have "get m [int c, int r] = Inr (buf' ! (cc * r + c))"
      using k b(2) unfolding get_def m_def
      by (simp add: off getBit_def del: of_nat_add of_nat_mult)
    ultimately show ?thesis by simp
  qed
  from 1 2 3 4 show ?thesis by blast
qed

section \<open>Every reachable matrix is well-formed\<close>

lemma paste_loop_length:
  "paste_loop sz p buf entries = Inr buf' \<Longrightarrow> length buf' = length buf"
proof (induction entries arbitrary: buf)
  case Nil
  then show ?case by simp
next
  case (Cons entry entries)
  obtain b indices where entry: "entry = (b, indices)" by (cases entry)
  from Cons.prems show ?case
    unfolding entry
    by (auto simp: setBit_def dest!: Cons.IH split: sum.splits if_splits)
qed

lemma paste_wellFormed:
  assumes "wellFormed this" "paste this patch p = Inr m"
  shows "wellFormed m"
proof -
  from assms(2) obtain buf where "paste_loop (size_m this) p (buffer this) (listBit_m patch) = Inr buf"
    and m: "m = new_BinaryMatrix (size_m this) (Some buf)"
    by (auto simp: paste_def split: sum.splits)
  from paste_loop_length [OF this(1)] assms(1) show ?thesis
    by (simp add: m wellFormed_def new_BinaryMatrix_def bitLength_def)
qed

lemma writer_write_length: "length (wbuffer (writer_write w v n)) = length (wbuffer w)"
  by (simp add: writer_write_def fold_range_length)

lemma decode_runs_length:
  "decode_runs tot w off state rs = Inr w' \<Longrightarrow> length (wbuffer w') = length (wbuffer w)"
proof (induction rs arbitrary: w off state)
  case Nil
  then show ?case by (simp split: if_splits)
next
  case (Cons r rs)
  from Cons.prems show ?case
    by (auto simp: writer_write_length dest!: Cons.IH split: sum.splits if_splits)
qed

lemma decode_wellFormed:
  assumes "decode vlq_decode encoded = Inr m"
  shows "wellFormed m"
proof -
  from assms obtain dimensionCount decoder w' where
    w: "decode_runs (sizeToBitLength (map int (take dimensionCount decoder)))
          (new_BitWriter (createBufferFromBitLength (sizeToBitLength (map int (take dimensionCount decoder)))))
          0 False (drop dimensionCount decoder) = Inr w'"
    and m: "m = new_BinaryMatrix (map int (take dimensionCount decoder)) (Some (writer_end w'))"
    by (auto simp: decode_def Let_def split: list.splits if_splits sum.splits)
  from decode_runs_length [OF w] show ?thesis
    by (simp add: m wellFormed_def new_BinaryMatrix_def bitLength_def writer_end_def
        new_BitWriter_def createBufferFromBitLength_def list_all_iff)
qed

lemma fromString_wellFormed:
  assumes "fromString rows = Inr m"
  shows "wellFormed m"
proof (cases rows)
  case Nil
  with assms show ?thesis by (simp add: fromString_def)
next
  case (Cons row rest)
  then have "rows \<noteq> []" by simp
  from fromString_cells [OF this] assms show ?thesis by auto
qed

lemma fromDimension_wellFormed:
  assumes "fromDimension dimension = Inr m"
  shows "wellFormed m"
  using assms by (auto simp: fromDimension_def list_all_iff intro!: wellFormed_new split: if_splits)

lemma set_m_wellFormed:
  assumes wf: "wellFormed this" and r: "set_m this indices state = Some (Inr m)"
  shows "wellFormed m"
proof (cases "length indices = length (size_m this)")
  case False
  then have "set_m this indices state = Some (Inl DimensionMismatch)"
    by (subst set_m.simps) (simp add: checkExpansion_def)
  with r show ?thesis by simp
next
  case len: True
  show ?thesis
  proof (cases "inRange (size_m this) indices")
    case True
    from set_m_inRange [OF wf True, of state] r wellFormed_update [OF wf] show ?thesis
      by auto
  next
    case out: False
    show ?thesis
    proof (cases "\<exists>i\<in>set indices. i < 0")
      case True
      from set_m_negative_diverges [OF wf len True, of state] r show ?thesis by simp
    next
      case False
      then have "\<forall>i\<in>set indices. 0 \<le> i" by auto
      from set_m_grows [OF wf len this out, of state] r show ?thesis by auto
    qed
  qed
qed

lemma reachable_wellFormed: "reachable m \<Longrightarrow> wellFormed m"
proof (induction rule: reachable.induct)
  case (by_fromDimension dimension m)
  then show ?case by (rule fromDimension_wellFormed)
next
  case (by_fromSize sz)
  then show ?case by (simp add: fromSize_def wellFormed_new)
next
  case (by_fromString rows m)
  then show ?case by (rule fromString_wellFormed)
next
  case (by_decode encoded m)
  then show ?case by (rule decode_wellFormed)
next
  case (by_set matrix indices state m)
  then show ?case by (blast intro: set_m_wellFormed)
next
  case (by_paste matrix patch p m)
  then show ?case by (blast intro: paste_wellFormed)
qed

section \<open>The round trip through the wire format\<close>

text \<open>
  Where no run of 1 bits is longer than 53, the round trip holds: for every integer codec
  whose decoder inverts its encoder and every well-formed matrix \<open>M\<close> of that kind,
  \<^verbatim>\<open>decode(encode(M))\<close> returns a matrix that is the same as \<open>M\<close>, with the size of \<open>M\<close>
  and the bit of \<open>M\<close> at every in-range index; the integers \<^verbatim>\<open>encode\<close> emits after the
  dimension count and the extents are run lengths whose first counts 0 bits (it may be 0)
  and which spell out the \<^verbatim>\<open>bitLength\<close> bits of \<open>M\<close>; and \<^verbatim>\<open>encode\<close> depends on the size
  and the cells only.
\<close>

lemma roundtrip_exact_runs:
  assumes codec: "\<And>ws. vlq_decode (vlq_encode ws) = ws" and wf: "wellFormed this"
    and exact: "exactRuns False (runLength (buffer this) 0 (bitLength this))"
  shows "\<exists>m. decode vlq_decode (encode vlq_encode this) = Inr m \<and>
           isSameAs m this \<and>
           size_m m = size_m this \<and>
           (\<forall>ix. inRange (size_m this) ix \<longrightarrow> get m ix = get this ix) \<and>
           (\<exists>r rs. encode vlq_encode this
                      = vlq_encode (length (size_m this) # map nat (size_m this) @ r # rs) \<and>
                    take (nat (bitLength this)) (buffer this) = replicate r False @ expand True rs) \<and>
           (\<forall>other. wellFormed other \<and> isSameAs this other
                \<longrightarrow> encode vlq_encode other = encode vlq_encode this)"
proof -
  define sz where "sz = size_m this"
  define n where "n = nat (bitLength this)"
  define bits where "bits = take n (buffer this)"
  define rs where "rs = runs False 0 bits"
  define pad where "pad = 8 * nat ((int (sum_list rs) + 7) div 8) - sum_list rs"
  define m where "m = \<lparr>size_m = sz, buffer = bits @ replicate pad False\<rparr>"
  have nonneg: "list_all (\<lambda>e. 0 \<le> e) sz"
    using wf by (simp add: wellFormed_def sz_def)
  have n: "int n = bitLength this"
    using wellFormed_bitLength_nonneg [OF wf] by (simp add: n_def)
  have le: "n \<le> length (buffer this)"
    using wellFormed_buffer_holds [OF wf] by (simp add: n_def)
  then have lbits: "length bits = n"
    by (simp add: bits_def)
  have rl: "runLength (buffer this) 0 (bitLength this) = rs"
    by (simp add: runLength_def rs_def bits_def n_def)
  have sum: "sum_list rs = n"
    by (simp add: rs_def sum_list_runs lbits)
  have ex: "expand False rs = bits"
    by (simp add: rs_def expand_runs)
  have enc: "vlq_decode (encode vlq_encode this) = length (map nat sz) # map nat sz @ rs @ []"
    by (simp add: encode_def codec rl sz_def)
  have "prod_list (map int (map nat sz)) = bitLength this"
    unfolding map_int_nat [OF nonneg] by (simp add: bitLength_def sizeToBitLength_def sz_def)
  then have tot: "int (sum_list rs) = prod_list (map int (map nat sz))"
    using n sum by simp
  have 1: "decode vlq_decode (encode vlq_encode this) = Inr m"
    using decode_prefix [where vlq_decode = vlq_decode and encoded = "encode vlq_encode this",
        OF enc tot] exact
    by (simp only: ex map_int_nat [OF nonneg] m_def pad_def rl)
  have "pad = 8 * nat ((bitLength this + 7) div 8) - n"
    by (simp add: pad_def sum n)
  moreover have "n \<le> 8 * nat ((bitLength this + 7) div 8)"
    using n by linarith
  ultimately have len_m: "length (buffer m) = 8 * nat ((bitLength this + 7) div 8)"
    by (simp add: m_def lbits)
  have szm: "size_m m = size_m this"
    by (simp add: m_def sz_def)
  have wfm: "wellFormed m"
    using nonneg len_m szm by (simp add: wellFormed_def bitLength_def sz_def)
  have tk: "take n (buffer m) = take n (buffer this)"
    using lbits by (simp add: m_def) (simp add: bits_def)
  have same: "isSame m this"
    using isSame_take [OF wfm wf] szm tk by (simp add: bitLength_def n_def)
  have 4: "get m ix = get this ix" if r: "inRange (size_m this) ix" for ix
  proof -
    have k: "nat (weighted (size_m this) ix) < n"
      using inRange_offset [OF r] by (simp add: n_def)
    have "take n (buffer m) ! nat (weighted (size_m this) ix)
        = take n (buffer this) ! nat (weighted (size_m this) ix)"
      by (simp only: tk)
    then have "buffer m ! nat (weighted (size_m this) ix) = buffer this ! nat (weighted (size_m this) ix)"
      using k by simp
    moreover have "inRange (size_m m) ix" using r szm by simp
    ultimately show ?thesis
      using get_inRange [OF wfm, of ix] get_inRange [OF wf r] szm by simp
  qed
  obtain r rs' where rs: "rs = r # rs'"
    using runs_not_Nil [of False 0 bits] by (cases rs) (auto simp: rs_def)
  have 5: "encode vlq_encode this = vlq_encode (length (size_m this) # map nat (size_m this) @ r # rs')"
    by (simp add: encode_def rl rs)
  have 6: "take (nat (bitLength this)) (buffer this) = replicate r False @ expand True rs'"
    using ex unfolding rs by (simp add: bits_def n_def)
  have 7: "encode vlq_encode other = encode vlq_encode this"
    if o: "wellFormed other" "isSameAs this other" for other
  proof -
    from o isSame_take [OF wf o(1)]
    have "size_m this = size_m other"
      "take (nat (bitLength this)) (buffer this) = take (nat (bitLength this)) (buffer other)"
      by (simp_all add: isSameAs_def)
    then show ?thesis
      by (simp add: encode_def runLength_def bitLength_def)
  qed
  from 1 same szm 4 5 6 7 show ?thesis
    by (auto simp: isSameAs_def)
qed

text \<open>
  C1 (the code departs from the claim). The claim: for every reachable matrix \<open>M\<close>,
  \<^verbatim>\<open>decode(encode(M))\<close> is the same as \<open>M\<close>. The matrix of \<^verbatim>\<open>fromString\<close> on one row of
  54 characters \<^verbatim>\<open>'1'\<close> holds 54 bits 1; \<^verbatim>\<open>encode\<close> emits the dimension count 2, the
  extents 54 and 1 and the runs 0 and 54; \<^verbatim>\<open>decode\<close> passes \<^verbatim>\<open>2 ** 54 - 1\<close>, which is
  \<^verbatim>\<open>2 ** 54\<close> and has 54 low bits 0, to the writer, and returns the all-zero matrix, which
  is not the same: the cell \<open>[0, 0]\<close> differs. The integer codec is taken as the identity on
  sequences of integers; a codec whose decoder inverts its encoder gives the same matrices.
\<close>

theorem roundtrip_long_run_lost:
  "fromString [replicate 54 (CHR ''1'')]
     = Inr \<lparr>size_m = [54, 1], buffer = replicate 54 True @ [False, False]\<rparr> \<and>
   encode (\<lambda>ws. ws) \<lparr>size_m = [54, 1], buffer = replicate 54 True @ [False, False]\<rparr>
     = [2, 54, 1, 0, 54] \<and>
   decode (\<lambda>ws. ws) [2, 54, 1, 0, 54] = Inr \<lparr>size_m = [54, 1], buffer = replicate 56 False\<rparr> \<and>
   \<not> isSameAs \<lparr>size_m = [54, 1], buffer = replicate 56 False\<rparr>
         \<lparr>size_m = [54, 1], buffer = replicate 54 True @ [False, False]\<rparr> \<and>
   get \<lparr>size_m = [54, 1], buffer = replicate 54 True @ [False, False]\<rparr> [0, 0] = Inr True \<and>
   get \<lparr>size_m = [54, 1], buffer = replicate 56 False\<rparr> [0, 0] = Inr False"
  by code_simp

section \<open>Writing outside the bounds\<close>

text \<open>
  C2 (the code departs from the claim). The claim: for an index outside the bounds,
  \<^verbatim>\<open>set\<close> writes at the index translated by the origin shift and returns a matrix that
  holds the old cells at their translated places. On the matrix of
  \<^verbatim>\<open>fromString(["01", "10"])\<close> and the indices \<open>[-1, 0]\<close> the planner asks for size
  \<open>[3, 2]\<close> and shift \<open>[1, 0]\<close>; \<^verbatim>\<open>setExternalBit\<close> pastes the matrix there and calls
  \<^verbatim>\<open>set\<close> with \<open>[-1, 0]\<close> again, not with \<open>[0, 0]\<close>, and the call never returns.
\<close>

theorem set_negative_index_not_translated:
  "fromString [''01'', ''10'']
     = Inr \<lparr>size_m = [2, 2], buffer = [False, True, True, False, False, False, False, False]\<rparr> \<and>
   checkExpansion [2, 2] [-1, 0] = Inr (Some \<lparr>size_e = [3, 2], pos = [1, 0]\<rparr>) \<and>
   set_m \<lparr>size_m = [2, 2], buffer = [False, True, True, False, False, False, False, False]\<rparr> [-1, 0] True
     = None"
proof -
  let ?m = "\<lparr>size_m = [2, 2], buffer = [False, True, True, False, False, False, False, False]\<rparr>"
  have a: "fromString [''01'', ''10''] = Inr ?m"
    by code_simp
  have b: "checkExpansion [2, 2] [-1, 0] = Inr (Some \<lparr>size_e = [3, 2], pos = [1, 0]\<rparr>)"
    by (simp add: checkExpansion_def)
  have wf: "wellFormed ?m"
    by (simp add: wellFormed_def bitLength_def sizeToBitLength_def)
  have "set_m ?m [-1, 0] True = None"
    using wf by (intro set_m_negative_diverges) simp_all
  with a b show ?thesis
    by blast
qed

text \<open>
  C3 (the code departs from the claim). The claim: \<^verbatim>\<open>set\<close> terminates and returns a
  matrix for every indices of length \<open>D\<close>, negative components included, recursing at most
  once. On the one-dimensional matrix of size \<open>[2]\<close> and the indices \<open>[-1]\<close>, which are
  well-formed and of length \<open>D\<close>, \<^verbatim>\<open>set\<close> never returns.
\<close>

theorem set_negative_index_never_returns:
  "wellFormed (fromSize [2]) \<and> length [-1 :: int] = length (size_m (fromSize [2])) \<and>
   set_m (fromSize [2]) [-1] True = None"
proof -
  have wf: "wellFormed (fromSize [2])"
    by (simp add: fromSize_def wellFormed_new)
  have len: "length [-1 :: int] = length (size_m (fromSize [2]))"
    by (simp add: fromSize_def new_BinaryMatrix_def)
  have "\<exists>i\<in>set [-1 :: int]. i < 0"
    by simp
  from set_m_negative_diverges [OF wf len this] wf len show ?thesis
    by blast
qed

section \<open>Construction for a dimension count\<close>

text \<open>
  C5 (the claim as stated fails). The claim: for every positive dimension count \<open>n\<close>,
  \<^verbatim>\<open>fromDimension(n)\<close> builds a matrix with extent 1 on every axis, so its bit length
  is 1. The code fills the size with \<open>0\<close>: for two dimensions the size is \<open>[0, 0]\<close>,
  not \<open>[1, 1]\<close>, and the bit length is 0, not 1.
\<close>

theorem fromDimension_unit_counterexample:
  "fromDimension 2 = Inr \<lparr>size_m = [0, 0], buffer = []\<rparr> \<and>
   size_m \<lparr>size_m = [0, 0], buffer = []\<rparr> \<noteq> [1, 1] \<and>
   bitLength \<lparr>size_m = [0, 0], buffer = []\<rparr> \<noteq> 1"
  by (simp add: fromDimension_def new_BinaryMatrix_def bitLength_def sizeToBitLength_def
      createBufferFromBitLength_def numeral_2_eq_2)

text \<open>
  C5 (amended). For every positive dimension count \<open>n\<close> below the array-length limit
  \<open>2\<^sup>3\<^sup>2\<close>, \<^verbatim>\<open>fromDimension(n)\<close> builds the empty matrix of \<open>n\<close> dimensions: its size has
  length \<open>n\<close> with extent 0 on every axis, its buffer is empty and its bit length is 0.
\<close>

theorem fromDimension_empty:
  "0 < dimension \<Longrightarrow> dimension < 2 ^ 32 \<Longrightarrow>
     fromDimension dimension = Inr \<lparr>size_m = replicate (nat dimension) 0, buffer = []\<rparr> \<and>
     length (replicate (nat dimension) (0::int)) = nat dimension \<and>
     bitLength \<lparr>size_m = replicate (nat dimension) 0, buffer = []\<rparr> = 0"
  by (simp add: fromDimension_def new_BinaryMatrix_def bitLength_def sizeToBitLength_def
      createBufferFromBitLength_def power_0_left)

theorem fromDimension_empty_witness:
  "(0::int) < 3 \<and> (3::int) < 2 ^ 32 \<and>
   fromDimension 3 = Inr \<lparr>size_m = [0, 0, 0], buffer = []\<rparr> \<and>
   bitLength \<lparr>size_m = [0, 0, 0], buffer = []\<rparr> = 0"
  using fromDimension_empty [of 3] by (simp add: numeral_3_eq_3)

section \<open>Construction from rows of text\<close>




section \<open>Decoding without validation\<close>

text \<open>
  C7 (the claim as stated fails). The claim: for every encoded input whose run lengths do
  not sum to the declared total bit count, \<^verbatim>\<open>decode\<close> aborts with a malformed-input
  error. The integers \<open>2, 2, 2, 4, 3\<close> declare two dimensions of extent 2, so 4 bits, and
  carry runs of 4 and 3 bits, 7 in all; \<^verbatim>\<open>decode\<close> returns the all-zero matrix of size
  \<open>[2, 2]\<close> and never looks at the second run.
\<close>

theorem decode_MalformedInput_counterexample:
  "decode (\<lambda>ws. ws) [2, 2, 2, 4, 3]
     = Inr \<lparr>size_m = [2, 2], buffer = [False, False, False, False, False, False, False, False]\<rparr> \<and>
   sizeToBitLength [2, 2] = 4 \<and> sum_list [4, 3 :: nat] \<noteq> 4"
  by code_simp

text \<open>
  C7 (amended). Let the runs read be the shortest prefix of the run stream whose sum
  reaches the declared total bit count, that is, equals it or passes it. Whenever there is
  such a prefix, it ends inside the bytes of the buffer and it has no run of 1 bits longer
  than 53, \<^verbatim>\<open>decode\<close> raises nothing and returns the well-formed matrix of the declared
  size whose buffer holds the alternating runs read, starting with a run of 0 bits, and
  zeros after them; this also when the runs sum to more than the total: a last run that
  passes the total is written out in full, into the padding bits of the last byte, and the
  runs after the runs read are ignored. The integers \<open>1, 4, 2, 5, 9\<close> declare 4 bits and
  carry the runs 2, 5 and 9: \<^verbatim>\<open>decode\<close> returns the matrix of size \<open>[4]\<close> with the
  bits \<open>0, 0, 1, 1\<close> and three 1 bits in the padding.
\<close>

theorem decode_unvalidated:
  assumes "vlq_decode encoded = length sz # sz @ rs @ extra"
    and "\<forall>k < length rs. int (sum_list (take k rs)) < prod_list (map int sz)"
    and "prod_list (map int sz) \<le> int (sum_list rs)"
    and "sum_list rs \<le> 8 * nat ((prod_list (map int sz) + 7) div 8)"
    and "exactRuns False rs"
  shows "\<exists>m. decode vlq_decode encoded = Inr m \<and> size_m m = map int sz \<and> wellFormed m \<and>
           buffer m = expand False rs @ replicate (length (buffer m) - sum_list rs) False"
proof -
  let ?len = "8 * nat ((prod_list (map int sz) + 7) div 8)"
  let ?m = "\<lparr>size_m = map int sz, buffer = expand False rs @ replicate (?len - sum_list rs) False\<rparr>"
  have "take ?len (expand False rs @ replicate ?len False)
      = expand False rs @ replicate (?len - sum_list rs) False"
    using assms(4) by (simp add: length_expand)
  then have "decode vlq_decode encoded = Inr ?m"
    using decode_reach [where vlq_decode = vlq_decode and encoded = encoded,
        OF assms(1) assms(2) assms(3) assms(5)]
    by simp
  moreover have len: "length (buffer ?m) = ?len"
    using assms(4) by (simp add: length_expand)
  moreover have "wellFormed ?m"
    using len by (simp add: wellFormed_def bitLength_def sizeToBitLength_def list_all_iff)
  ultimately show ?thesis
    by simp
qed

theorem decode_unvalidated_witness:
  "(\<lambda>ws. ws) [1, 4, 2, 5, 9] = length [4 :: nat] # [4] @ [2, 5] @ [9] \<and>
   int (sum_list (take 0 [2, 5 :: nat])) < prod_list (map int [4]) \<and>
   int (sum_list (take 1 [2, 5 :: nat])) < prod_list (map int [4]) \<and>
   prod_list (map int [4]) < int (sum_list [2, 5]) \<and>
   sum_list [2, 5] \<le> 8 * nat ((prod_list (map int [4]) + 7) div 8) \<and>
   exactRuns False [2, 5] \<and>
   (\<exists>m. decode (\<lambda>ws. ws) [1, 4, 2, 5, 9] = Inr m \<and> size_m m = [4] \<and> wellFormed m \<and>
        buffer m = [False, False, True, True, True, True, True, False])"
proof -
  have a: "(\<lambda>ws. ws) [1, 4, 2, 5, 9] = length [4 :: nat] # [4] @ [2, 5] @ [9]"
    by simp
  have b: "\<forall>k < length [2, 5 :: nat]. int (sum_list (take k [2, 5])) < prod_list (map int [4])"
    by (simp add: less_Suc_eq numeral_2_eq_2)
  have c: "prod_list (map int [4]) < int (sum_list [2, 5])"
    by simp
  have d: "sum_list [2, 5] \<le> 8 * nat ((prod_list (map int [4]) + 7) div 8)"
    by simp
  have e: "exactRuns False [2, 5]"
    by simp
  have x: "expand False [2, 5] = [False, False, True, True, True, True, True]"
    by code_simp
  from decode_unvalidated [where vlq_decode = "\<lambda>ws. ws" and encoded = "[1, 4, 2, 5, 9]",
      OF a b order_less_imp_le [OF c] d e]
  obtain m where m: "decode (\<lambda>ws. ws) [1, 4, 2, 5, 9] = Inr m" "size_m m = map int [4]"
    "wellFormed m"
    "buffer m = expand False [2, 5] @ replicate (length (buffer m) - sum_list [2, 5]) False"
    by blast
  from m(2,3) have "length (buffer m) = 8"
    by (simp add: wellFormed_def bitLength_def sizeToBitLength_def)
  with m(4) have "buffer m = [False, False, True, True, True, True, True, False]"
    unfolding x by simp
  with m(1-3) a c d e show ?thesis
    by simp
qed

section \<open>Writing a cell that is in range\<close>

text \<open>
  C8. For every well-formed matrix \<open>M\<close>, every in-range index \<open>i\<close> and boolean \<open>v\<close>:
  \<^verbatim>\<open>M.set(i, v)\<close> returns a matrix that reads \<open>v\<close> at \<open>i\<close>, has the size of \<open>M\<close> and
  holds at every other in-range cell the bit \<open>M\<close> holds there; setting the same cell to
  the same value again returns a matrix that is the same as the first result.
\<close>

theorem set_inRange:
  assumes wf: "wellFormed this" and i: "inRange (size_m this) i"
  shows "\<exists>m. set_m this i v = Some (Inr m) \<and>
           get m i = Inr v \<and>
           size_m m = size_m this \<and>
           (\<forall>j. inRange (size_m this) j \<and> j \<noteq> i \<longrightarrow> get m j = get this j) \<and>
           (\<exists>m'. set_m m i v = Some (Inr m') \<and> isSameAs m' m)"
proof -
  let ?m = "\<lparr>size_m = size_m this, buffer = (buffer this)[nat (weighted (size_m this) i) := v]\<rparr>"
  have wf': "wellFormed ?m" using wf by (rule wellFormed_update)
  have i': "inRange (size_m ?m) i" using i by simp
  have 1: "set_m this i v = Some (Inr ?m)"
    using wf i by (rule set_m_inRange)
  note cell = update_cell [OF wf i, of v]
  have 4: "set_m ?m i v = Some (Inr ?m)"
    using set_m_inRange [OF wf' i', of v] by simp
  have 5: "isSameAs ?m ?m"
    by (simp add: isSameAs_def isSame_def)
  from 1 cell 4 5 show ?thesis
    by auto
qed

theorem set_inRange_witness:
  "wellFormed \<lparr>size_m = [2, 2], buffer = [False, True, True, False, False, False, False, False]\<rparr> \<and>
   inRange [2, 2] [1, 1] \<and>
   (\<exists>m. set_m \<lparr>size_m = [2, 2], buffer = [False, True, True, False, False, False, False, False]\<rparr>
            [1, 1] True = Some (Inr m) \<and>
        get m [1, 1] = Inr True \<and>
        size_m m = [2, 2] \<and>
        get m [0, 1] = Inr True \<and>
        (\<exists>m'. set_m m [1, 1] True = Some (Inr m') \<and> isSameAs m' m))"
proof -
  let ?m = "\<lparr>size_m = [2, 2], buffer = [False, True, True, False, False, False, False, False]\<rparr>"
  have wf: "wellFormed ?m"
    by (simp add: wellFormed_def bitLength_def sizeToBitLength_def)
  have i: "inRange (size_m ?m) [1, 1]" and j: "inRange (size_m ?m) [0, 1]"
    by (simp_all add: inRange_def)
  have g: "get ?m [0, 1] = Inr True"
    by (simp add: get_def indicesToOffset_def getBit_def)
  from set_inRange [OF wf i, of True] obtain m where m: "set_m ?m [1, 1] True = Some (Inr m)"
    "get m [1, 1] = Inr True" "size_m m = size_m ?m"
    "\<forall>j. inRange (size_m ?m) j \<and> j \<noteq> [1, 1] \<longrightarrow> get m j = get ?m j"
    "\<exists>m'. set_m m [1, 1] True = Some (Inr m') \<and> isSameAs m' m"
    by blast
  from m(4) j g have "get m [0, 1] = Inr True"
    by simp
  with m wf i show ?thesis
    by auto
qed

section \<open>Pasting a patch\<close>

text \<open>
  C9. For every well-formed matrix \<open>M\<close> and patch \<open>P\<close> in a store of buffers and every
  position with one entry per dimension of \<open>P\<close> such that every translated index of \<open>P\<close>
  is in range of \<open>M\<close>: \<^verbatim>\<open>M.paste(P, pos)\<close>, writing to a copy at a fresh address,
  returns a matrix of the size of \<open>M\<close> in which every translated cell of \<open>P\<close> holds the bit
  of \<open>P\<close> and every cell of \<open>M\<close> that no translated cell covers holds the bit of \<open>M\<close>; it
  is the matrix the function on values computes; and the store is unchanged at every
  address but that of the copy, so \<open>M\<close> and \<open>P\<close> are unmodified.
\<close>

theorem paste_cells:
  assumes wf: "wellFormed (deref \<sigma> this)" and wfp: "wellFormed (deref \<sigma> patch)"
    and len: "length p = length (size_r patch)"
    and fit: "\<forall>ix. inRange (size_r patch) ix \<longrightarrow> inRange (size_r this) (map2 (+) ix p)"
    and fresh: "a \<noteq> buffer_r this" "a \<noteq> buffer_r patch"
  shows "\<exists>r \<sigma>'. paste_store \<sigma> a this patch p = Inr (r, \<sigma>') \<and>
           paste (deref \<sigma> this) (deref \<sigma> patch) p = Inr (deref \<sigma>' r) \<and>
           size_r r = size_r this \<and>
           (\<forall>ix. inRange (size_r patch) ix \<longrightarrow>
              get (deref \<sigma>' r) (map2 (+) ix p) = get (deref \<sigma> patch) ix) \<and>
           (\<forall>j. inRange (size_r this) j \<and> (\<forall>ix. inRange (size_r patch) ix \<longrightarrow> j \<noteq> map2 (+) ix p)
              \<longrightarrow> get (deref \<sigma>' r) j = get (deref \<sigma> this) j) \<and>
           deref \<sigma>' this = deref \<sigma> this \<and> deref \<sigma>' patch = deref \<sigma> patch \<and>
           (\<forall>x. x \<noteq> a \<longrightarrow> \<sigma>' x = \<sigma> x)"
proof -
  have len': "length p = length (size_m (deref \<sigma> patch))"
    using len by (simp add: deref_def)
  have fit': "\<forall>ix. inRange (size_m (deref \<sigma> patch)) ix
      \<longrightarrow> inRange (size_m (deref \<sigma> this)) (map2 (+) ix p)"
    using fit by (simp add: deref_def)
  from paste_result [OF wf wfp len' fit'] obtain v where
    v: "paste (deref \<sigma> this) (deref \<sigma> patch) p = Inr v" "size_m v = size_r this"
    "\<forall>ix. inRange (size_r patch) ix \<longrightarrow> get v (map2 (+) ix p) = get (deref \<sigma> patch) ix"
    "\<forall>j. inRange (size_r this) j \<and> (\<forall>ix. inRange (size_r patch) ix \<longrightarrow> j \<noteq> map2 (+) ix p)
        \<longrightarrow> get v j = get (deref \<sigma> this) j"
    by (auto simp: deref_def)
  let ?r = "\<lparr>size_r = size_r this, buffer_r = a\<rparr>"
  let ?\<sigma>' = "\<sigma>(a := buffer v)"
  have 1: "paste_store \<sigma> a this patch p = Inr (?r, ?\<sigma>')"
    by (simp add: paste_store_value v(1))
  have 2: "deref ?\<sigma>' ?r = v"
    using v(2) by (simp add: deref_def)
  have 3: "deref ?\<sigma>' this = deref \<sigma> this" "deref ?\<sigma>' patch = deref \<sigma> patch"
    using fresh by (simp_all add: deref_def)
  have 4: "paste (deref \<sigma> this) (deref \<sigma> patch) p = Inr (deref ?\<sigma>' ?r)"
    using v(1) by (simp only: 2)
  have 5: "\<forall>ix. inRange (size_r patch) ix \<longrightarrow>
      get (deref ?\<sigma>' ?r) (map2 (+) ix p) = get (deref \<sigma> patch) ix"
    using v(3) by (simp only: 2)
  have 6: "\<forall>j. inRange (size_r this) j \<and> (\<forall>ix. inRange (size_r patch) ix \<longrightarrow> j \<noteq> map2 (+) ix p)
        \<longrightarrow> get (deref ?\<sigma>' ?r) j = get (deref \<sigma> this) j"
    using v(4) by (simp only: 2)
  have 7: "\<forall>x. x \<noteq> a \<longrightarrow> ?\<sigma>' x = \<sigma> x"
    by simp
  have 8: "size_r ?r = size_r this"
    by simp
  from 1 4 8 5 6 3 7 show ?thesis
    by blast
qed

theorem paste_cells_witness:
  "(\<exists>r \<sigma>'. paste_store
       ((\<lambda>x. [])(0 := replicate 8 False, 1 := [True, True, False, False, False, False, False, False]))
       2 \<lparr>size_r = [3, 2], buffer_r = 0\<rparr> \<lparr>size_r = [2, 1], buffer_r = 1\<rparr> [1, 1] = Inr (r, \<sigma>') \<and>
     size_r r = [3, 2] \<and>
     get (deref \<sigma>' r) [1, 1] = Inr True \<and> get (deref \<sigma>' r) [2, 1] = Inr True \<and>
     get (deref \<sigma>' r) [0, 0] = Inr False \<and>
     \<sigma>' 0 = replicate 8 False)"
proof -
  define \<sigma> :: store where
    "\<sigma> = (\<lambda>x. [])(0 := replicate 8 False, 1 := [True, True, False, False, False, False, False, False])"
  let ?M = "\<lparr>size_r = [3, 2], buffer_r = 0\<rparr>"
  let ?P = "\<lparr>size_r = [2, 1], buffer_r = 1\<rparr>"
  have wf: "wellFormed (deref \<sigma> ?M)" and wfp: "wellFormed (deref \<sigma> ?P)"
    by (simp_all add: wellFormed_def deref_def \<sigma>_def bitLength_def sizeToBitLength_def)
  have len: "length [1, 1 :: int] = length (size_r ?P)"
    by simp
  have fit: "\<forall>ix. inRange (size_r ?P) ix \<longrightarrow> inRange (size_r ?M) (map2 (+) ix [1, 1])"
    by (auto simp: inRange_def list_all2_Cons1)
  have fresh: "2 \<noteq> buffer_r ?M" "2 \<noteq> buffer_r ?P"
    by simp_all
  from paste_cells [OF wf wfp len fit fresh] obtain r \<sigma>' where
    r: "paste_store \<sigma> 2 ?M ?P [1, 1] = Inr (r, \<sigma>')" "size_r r = size_r ?M"
    "\<forall>ix. inRange (size_r ?P) ix \<longrightarrow> get (deref \<sigma>' r) (map2 (+) ix [1, 1]) = get (deref \<sigma> ?P) ix"
    "\<forall>j. inRange (size_r ?M) j \<and> (\<forall>ix. inRange (size_r ?P) ix \<longrightarrow> j \<noteq> map2 (+) ix [1, 1])
        \<longrightarrow> get (deref \<sigma>' r) j = get (deref \<sigma> ?M) j"
    "deref \<sigma>' ?M = deref \<sigma> ?M"
    by blast
  have "inRange (size_r ?P) [0, 0]" "inRange (size_r ?P) [1, 0]"
    by (simp_all add: inRange_def)
  with r(3) have "get (deref \<sigma>' r) (map2 (+) [0, 0] [1, 1]) = get (deref \<sigma> ?P) [0, 0]"
    "get (deref \<sigma>' r) (map2 (+) [1, 0] [1, 1]) = get (deref \<sigma> ?P) [1, 0]"
    by blast+
  then have a: "get (deref \<sigma>' r) [1, 1] = Inr True" "get (deref \<sigma>' r) [2, 1] = Inr True"
    by (simp_all add: get_def deref_def \<sigma>_def indicesToOffset_def getBit_def)
  have "inRange (size_r ?M) [0, 0] \<and>
      (\<forall>ix. inRange (size_r ?P) ix \<longrightarrow> [0, 0] \<noteq> map2 (+) ix [1, 1])"
    by (auto simp: inRange_def list_all2_Cons1)
  with r(4) have "get (deref \<sigma>' r) [0, 0] = get (deref \<sigma> ?M) [0, 0]"
    by blast
  then have b: "get (deref \<sigma>' r) [0, 0] = Inr False"
    by (simp add: get_def deref_def \<sigma>_def indicesToOffset_def getBit_def)
  from r(5) have c: "\<sigma>' 0 = replicate 8 False"
    by (simp add: deref_def \<sigma>_def)
  from r(1,2) a b c show ?thesis
    unfolding \<sigma>_def by auto
qed

section \<open>Listing the cells\<close>

text \<open>
  C10. For every well-formed matrix, \<^verbatim>\<open>list(true)\<close> and \<^verbatim>\<open>list(false)\<close> together yield
  \<^verbatim>\<open>bitLength\<close> indices, and \<^verbatim>\<open>listBit()\<close> yields exactly \<^verbatim>\<open>bitLength\<close> pairs in
  strictly increasing offset order: the pair number \<open>k\<close> has linear offset \<open>k\<close>, is in
  range and carries the bit of its cell. Every index either sequence yields is in range, so
  the padding of the buffer beyond \<^verbatim>\<open>bitLength\<close> is never exposed.
\<close>

theorem list_coverage:
  assumes wf: "wellFormed this"
  shows "int (length (list_m this True)) + int (length (list_m this False)) = bitLength this \<and>
         int (length (listBit_m this)) = bitLength this \<and>
         (\<forall>k < length (listBit_m this).
            indicesToOffset (size_m this) (snd (listBit_m this ! k)) = Inr (int k) \<and>
            inRange (size_m this) (snd (listBit_m this ! k)) \<and>
            get this (snd (listBit_m this ! k)) = Inr (fst (listBit_m this ! k))) \<and>
         (\<forall>state. \<forall>ix\<in>set (list_m this state). inRange (size_m this) ix \<and> get this ix = Inr state)"
proof -
  let ?n = "nat (bitLength this)"
  have n: "int ?n = bitLength this"
    using wellFormed_bitLength_nonneg [OF wf] by simp
  have "length (list_m this True) + length (list_m this False) = ?n"
    using listBitHasState_split [OF wellFormed_buffer_holds [OF wf]]
    by (simp add: list_m_def)
  then have 1: "int (length (list_m this True)) + int (length (list_m this False)) = bitLength this"
    using n by linarith
  have entries: "listBit_m this
      = map (\<lambda>k. (buffer this ! k, offsetToIndices (size_m this) (int k))) [0..<?n]"
    using wf by (rule listBit_m_entries)
  then have len: "length (listBit_m this) = ?n"
    by simp
  have 3: "indicesToOffset (size_m this) (snd (listBit_m this ! k)) = Inr (int k) \<and>
           inRange (size_m this) (snd (listBit_m this ! k)) \<and>
           get this (snd (listBit_m this ! k)) = Inr (fst (listBit_m this ! k))"
    if "k < length (listBit_m this)" for k
  proof -
    from that len have k: "k < ?n" by simp
    let ?ix = "offsetToIndices (size_m this) (int k)"
    have e: "listBit_m this ! k = (buffer this ! k, ?ix)"
      using k by (simp add: entries)
    from offsets_of_wellFormed [OF wf k]
    have r: "inRange (size_m this) ?ix" and w: "weighted (size_m this) ?ix = int k"
      by simp_all
    have "indicesToOffset (size_m this) ?ix = Inr (int k)"
      using indicesToOffset_weighted [OF inRange_length [OF r]] w by simp
    moreover have "get this ?ix = Inr (buffer this ! k)"
      using get_inRange [OF wf r] w by simp
    ultimately show ?thesis
      using r by (simp add: e)
  qed
  have 4: "inRange (size_m this) ix \<and> get this ix = Inr state"
    if "ix \<in> set (list_m this state)" for ix state
  proof -
    from that obtain off where o: "off \<in> set (listBitHasState (buffer this) state 0 (bitLength this))"
      and ix: "ix = offsetToIndices (size_m this) off"
      by (auto simp: list_m_def)
    from listBitHasState_member [OF o]
    have b: "0 \<le> off" "off < bitLength this" and g: "getBit (buffer this) off = Inr state"
      by simp_all
    from b have k: "nat off < ?n" by simp
    from offsets_of_wellFormed [OF wf k] b(1)
    have r: "inRange (size_m this) ix" and w: "weighted (size_m this) ix = off"
      by (simp_all add: ix)
    have "get this ix = getBit (buffer this) off"
      using indicesToOffset_weighted [OF inRange_length [OF r]] w by (simp add: get_def)
    with r g show ?thesis by simp
  qed
  from 1 len n 3 4 show ?thesis
    by auto
qed

theorem list_coverage_witness:
  "wellFormed \<lparr>size_m = [3, 1], buffer = [False, True, True, True, True, True, True, True]\<rparr> \<and>
   int (length (list_m \<lparr>size_m = [3, 1], buffer = [False, True, True, True, True, True, True, True]\<rparr> True))
     + int (length (list_m \<lparr>size_m = [3, 1], buffer = [False, True, True, True, True, True, True, True]\<rparr> False))
     = 3 \<and>
   int (length (listBit_m \<lparr>size_m = [3, 1], buffer = [False, True, True, True, True, True, True, True]\<rparr>)) = 3"
proof -
  let ?m = "\<lparr>size_m = [3, 1], buffer = [False, True, True, True, True, True, True, True]\<rparr>"
  have wf: "wellFormed ?m"
    by (simp add: wellFormed_def bitLength_def sizeToBitLength_def)
  have "bitLength ?m = 3"
    by (simp add: bitLength_def sizeToBitLength_def)
  with list_coverage [OF wf] wf show ?thesis
    by simp
qed

end
